theory Spec2Isabelle
  imports Main "HOL-Library.AList" "HOL-Library.Sublist" "HOL-Library.Word"
begin

section \<open>Values, errors and dictionaries\<close>

text \<open>
  The module \<^verbatim>\<open>util/parse.py\<close> holds four functions. Two of them read
  CSV through the standard \<^verbatim>\<open>csv\<close> module, one walks a directory of JSON files as
  a generator, and one inverts a mapping. The exceptions that can leave them are values
  of the type \<open>error\<close>; a function that can raise returns \<open>error + 'a\<close>.
\<close>

datatype error =
    CsvError string
  | KeyError string
  | AttributeError
  | IndexError
  | OSError string
  | ReadError string
  | JSONDecodeError string

text \<open>
  What a cell of a \<^verbatim>\<open>csv.DictReader\<close> row can hold: a text, \<^verbatim>\<open>None\<close> (the
  \<^verbatim>\<open>restval\<close> of a short row, and also the \<^verbatim>\<open>restkey\<close> under which surplus
  fields are stored), or the list of surplus fields.
\<close>

datatype pyval = Str string | NoneVal | StrList "string list"

text \<open>
  A Python \<^verbatim>\<open>dict\<close> is an association list with distinct keys, in insertion order.
  \<^verbatim>\<open>d[k] = v\<close> is \<^const>\<open>AList.update\<close>: the value is replaced in place when the
  key is present and appended otherwise. Two dicts are equal in Python when they bind
  the same keys to equal values, whatever the order: when their \<^const>\<open>map_of\<close> agree.
\<close>

type_synonym ('k, 'v) dict = "('k \<times> 'v) list"

definition getitem :: "(pyval, 'v) dict \<Rightarrow> string \<Rightarrow> error + 'v" where
  "getitem d k = (case map_of d (Str k) of None \<Rightarrow> Inl (KeyError k) | Some v \<Rightarrow> Inr v)"

text \<open>
  \<^verbatim>\<open>d.setdefault(k, set()).add(x)\<close>: the set bound to \<open>k\<close> (a fresh empty one,
  appended to the dict, when \<open>k\<close> is unbound) receives \<open>x\<close>.
\<close>

definition setdefault_add :: "('k, 'a set) dict \<Rightarrow> 'k \<Rightarrow> 'a \<Rightarrow> ('k, 'a set) dict" where
  "setdefault_add result k x = AList.update_with_aux {} k (insert x) result"

text \<open>\<^verbatim>\<open>s.split(',')\<close> for a one-character separator: one piece more than separators.\<close>

fun str_split :: "char \<Rightarrow> string \<Rightarrow> string list" where
  "str_split sep [] = [[]]"
| "str_split sep (c # cs) =
     (if c = sep then [] # str_split sep cs
      else (case str_split sep cs of [] \<Rightarrow> [[c]] | w # ws \<Rightarrow> (c # w) # ws))"

text \<open>
  \<^verbatim>\<open>row['all_repos'].split(',')\<close>: only a text has the method; \<^verbatim>\<open>None\<close> and a list
  raise \<^verbatim>\<open>AttributeError\<close>.
\<close>

definition split_method :: "pyval \<Rightarrow> error + string list" where
  "split_method v = (case v of Str s \<Rightarrow> Inr (str_split CHR '','' s) | _ \<Rightarrow> Inl AttributeError)"

section \<open>The CSV reader of the standard library\<close>

text \<open>
  \<^verbatim>\<open>csv.reader(input_file)\<close> with the default dialect: delimiter \<^verbatim>\<open>,\<close>, quote
  character \<^verbatim>\<open>"\<close>, doubled quotes, no escape character, not strict. It iterates the
  stream line by line and feeds each character to a state machine
  (\<^verbatim>\<open>parse_process_char\<close> of CPython's \<^verbatim>\<open>_csv.c\<close>); the states that need an escape
  character cannot be reached and are left out. The end of a line is the character
  argument \<open>None\<close>. A NUL character in a line is an error, as in CPython before 3.11.
\<close>

datatype ParserState =
  START_RECORD | START_FIELD | IN_FIELD | IN_QUOTED_FIELD | QUOTE_IN_QUOTED_FIELD | EAT_CRNL

record ReaderObj =
  row_fields :: "string list"
  field :: string
  state :: ParserState

definition field_limit :: int where
  "field_limit = 131072"

definition parse_reset :: ReaderObj where
  "parse_reset = \<lparr>row_fields = [], field = [], state = START_RECORD\<rparr>"

definition parse_save_field :: "ReaderObj \<Rightarrow> ReaderObj" where
  "parse_save_field self = self\<lparr>row_fields := row_fields self @ [field self], field := []\<rparr>"

definition parse_add_char :: "ReaderObj \<Rightarrow> char \<Rightarrow> error + ReaderObj" where
  "parse_add_char self c =
     (if field_limit \<le> int (length (field self))
      then Inl (CsvError ''field larger than field limit (131072)'')
      else Inr (self\<lparr>field := field self @ [c]\<rparr>))"

definition is_newline :: "char \<Rightarrow> bool" where
  "is_newline c \<longleftrightarrow> c = CHR 0x0A \<or> c = CHR 0x0D"

definition set_state :: "ParserState \<Rightarrow> ReaderObj \<Rightarrow> ReaderObj" where
  "set_state s self = self\<lparr>state := s\<rparr>"

definition start_field :: "ReaderObj \<Rightarrow> char option \<Rightarrow> error + ReaderObj" where
  "start_field self c =
     (case c of
        None \<Rightarrow> Inr (set_state START_RECORD (parse_save_field self))
      | Some x \<Rightarrow>
          if is_newline x then Inr (set_state EAT_CRNL (parse_save_field self))
          else if x = CHR 0x22 then Inr (set_state IN_QUOTED_FIELD self)
          else if x = CHR '','' then Inr (parse_save_field self)
          else map_sum id (set_state IN_FIELD) (parse_add_char self x))"

definition parse_process_char :: "ReaderObj \<Rightarrow> char option \<Rightarrow> error + ReaderObj" where
  "parse_process_char self c =
     (case state self of
        START_RECORD \<Rightarrow>
          (case c of
             None \<Rightarrow> Inr self
           | Some x \<Rightarrow>
               if is_newline x then Inr (set_state EAT_CRNL self)
               else start_field (set_state START_FIELD self) c)
      | START_FIELD \<Rightarrow> start_field self c
      | IN_FIELD \<Rightarrow>
          (case c of
             None \<Rightarrow> Inr (set_state START_RECORD (parse_save_field self))
           | Some x \<Rightarrow>
               if is_newline x then Inr (set_state EAT_CRNL (parse_save_field self))
               else if x = CHR '','' then Inr (set_state START_FIELD (parse_save_field self))
               else parse_add_char self x)
      | IN_QUOTED_FIELD \<Rightarrow>
          (case c of
             None \<Rightarrow> Inr self
           | Some x \<Rightarrow>
               if x = CHR 0x22 then Inr (set_state QUOTE_IN_QUOTED_FIELD self)
               else parse_add_char self x)
      | QUOTE_IN_QUOTED_FIELD \<Rightarrow>
          (case c of
             None \<Rightarrow> Inr (set_state START_RECORD (parse_save_field self))
           | Some x \<Rightarrow>
               if x = CHR 0x22 then map_sum id (set_state IN_QUOTED_FIELD) (parse_add_char self x)
               else if x = CHR '','' then Inr (set_state START_FIELD (parse_save_field self))
               else if is_newline x then Inr (set_state EAT_CRNL (parse_save_field self))
               else map_sum id (set_state IN_FIELD) (parse_add_char self x))
      | EAT_CRNL \<Rightarrow>
          (case c of
             None \<Rightarrow> Inr (set_state START_RECORD self)
           | Some x \<Rightarrow>
               if is_newline x then Inr self
               else Inl (CsvError ''new-line character seen in unquoted field'')))"

text \<open>One line of the stream: every character, then the end-of-line marker.\<close>

fun process_line :: "ReaderObj \<Rightarrow> string \<Rightarrow> error + ReaderObj" where
  "process_line self [] = parse_process_char self None"
| "process_line self (c # cs) =
     (if c = CHR 0x00 then Inl (CsvError ''line contains NUL'')
      else (case parse_process_char self (Some c) of
              Inl e \<Rightarrow> Inl e
            | Inr self' \<Rightarrow> process_line self' cs))"

text \<open>
  The rows the reader yields on the lines of the stream, and the error that ends the
  iteration if there is one. A call of \<^verbatim>\<open>Reader_iternext\<close> resets the parser and
  consumes lines until the state is \<open>START_RECORD\<close> again; at the end of the stream a
  record that is under way (a field with characters, or an open quote) is still
  returned. Rows yielded before an error have reached the consumer before it is raised.
\<close>

fun reader_rows :: "ReaderObj \<Rightarrow> string list \<Rightarrow> string list list \<times> error option" where
  "reader_rows self [] =
     (if field self \<noteq> [] \<or> state self = IN_QUOTED_FIELD
      then ([row_fields (parse_save_field self)], None)
      else ([], None))"
| "reader_rows self (line # rest) =
     (case process_line self line of
        Inl e \<Rightarrow> ([], Some e)
      | Inr self' \<Rightarrow>
          if state self' = START_RECORD
          then (case reader_rows parse_reset rest of (rows, err) \<Rightarrow> (row_fields self' # rows, err))
          else reader_rows self' rest)"

definition csv_reader :: "string list \<Rightarrow> string list list \<times> error option" where
  "csv_reader input_file = reader_rows parse_reset input_file"

text \<open>
  The lines a text stream over \<open>text\<close> yields when iterated (\<^verbatim>\<open>io.StringIO(text)\<close>):
  each ends after its \<^verbatim>\<open>\n\<close>, which it keeps.
\<close>

fun lines_from :: "string \<Rightarrow> string \<Rightarrow> string list" where
  "lines_from cur [] = (if cur = [] then [] else [cur])"
| "lines_from cur (c # cs) =
     (if c = CHR 0x0A then (cur @ [c]) # lines_from [] cs else lines_from (cur @ [c]) cs)"

definition readlines :: "string \<Rightarrow> string list" where
  "readlines text = lines_from [] text"

text \<open>
  \<^verbatim>\<open>csv.DictReader\<close>: the first row gives the field names; every later row that is not
  \<^verbatim>\<open>[]\<close> becomes \<^verbatim>\<open>dict(zip(fieldnames, row))\<close>, with the surplus fields under the key
  \<^verbatim>\<open>None\<close> when the row is longer, and \<^verbatim>\<open>None\<close> under the field names left over when
  it is shorter.
\<close>

definition dict_row :: "string list \<Rightarrow> string list \<Rightarrow> (pyval, pyval) dict" where
  "dict_row fieldnames row =
     (let d = fold (\<lambda>(k, v). AList.update (Str k) (Str v)) (zip fieldnames row) [];
          lf = length fieldnames;
          lr = length row
      in if lf < lr then AList.update NoneVal (StrList (drop lf row)) d
         else if lr < lf then fold (\<lambda>key. AList.update (Str key) NoneVal) (drop lr fieldnames) d
         else d)"

definition DictReader :: "string list list \<Rightarrow> (pyval, pyval) dict list" where
  "DictReader rows =
     (case rows of
        [] \<Rightarrow> []
      | fieldnames # rest \<Rightarrow> map (dict_row fieldnames) (filter (\<lambda>row. row \<noteq> []) rest))"

section \<open>The functions of the module\<close>

text \<open>
  The dict comprehension of \<^verbatim>\<open>parse_package_to_repos_file\<close>, row by row: the key
  expression \<^verbatim>\<open>row['package']\<close>, then the value expression
  \<^verbatim>\<open>row['all_repos'].split(',')\<close> (the order of CPython 3.8 and later; it decides
  only which of two exceptions a row raises), then the store. An exception ends the
  call; the error of the reader, if any, comes after the rows it has yielded.
\<close>

fun comprehension ::
  "(pyval, pyval) dict list \<Rightarrow> (pyval, string list) dict \<Rightarrow> error + (pyval, string list) dict"
where
  "comprehension [] result = Inr result"
| "comprehension (row # rows) result =
     (case getitem row ''package'' of
        Inl e \<Rightarrow> Inl e
      | Inr key \<Rightarrow>
          (case getitem row ''all_repos'' of
             Inl e \<Rightarrow> Inl e
           | Inr v \<Rightarrow>
               (case split_method v of
                  Inl e \<Rightarrow> Inl e
                | Inr val \<Rightarrow> comprehension rows (AList.update key val result))))"

definition parse_package_to_repos_file :: "string list \<Rightarrow> error + (pyval, string list) dict" where
  "parse_package_to_repos_file input_file =
     (case csv_reader input_file of
        (rows, err) \<Rightarrow>
          (case comprehension (DictReader rows) [] of
             Inl e \<Rightarrow> Inl e
           | Inr result \<Rightarrow> (case err of Some e \<Rightarrow> Inl e | None \<Rightarrow> Inr result)))"

definition invert_mapping :: "('p, 'r list) dict \<Rightarrow> ('r, 'p set) dict" where
  "invert_mapping packages =
     fold (\<lambda>(package, repos) result.
             fold (\<lambda>repo result. setdefault_add result repo package) repos result)
          packages []"

text \<open>
  The loop of \<^verbatim>\<open>parse_repo_to_package_file\<close>. \<^verbatim>\<open>row[1]\<close> is evaluated first and
  raises \<^verbatim>\<open>IndexError\<close> on a row of fewer than two fields; \<^verbatim>\<open>row[0]\<close> then exists.
\<close>

fun repo_rows :: "string list list \<Rightarrow> (string, string set) dict \<Rightarrow> error + (string, string set) dict"
where
  "repo_rows [] result = Inr result"
| "repo_rows (row # rows) result =
     (if 1 < length row then repo_rows rows (setdefault_add result (row ! 1) (row ! 0))
      else Inl IndexError)"

definition parse_repo_to_package_file :: "string list \<Rightarrow> error + (string, string set) dict" where
  "parse_repo_to_package_file input_file =
     (case csv_reader input_file of
        (rows, err) \<Rightarrow>
          (case repo_rows rows [] of
             Inl e \<Rightarrow> Inl e
           | Inr result \<Rightarrow> (case err of Some e \<Rightarrow> Inl e | None \<Rightarrow> Inr result)))"

section \<open>Notions used to state the properties\<close>

text \<open>
  The members of the set a dict of sets binds to a key (none when the key is unbound),
  and the two shapes of value the mappings of the module hold: sets and lists.
\<close>

definition members :: "('k \<rightharpoonup> 'a set) \<Rightarrow> 'k \<Rightarrow> 'a set" where
  "members m k = (case m k of None \<Rightarrow> {} | Some s \<Rightarrow> s)"

definition nonempty_values :: "('k, 'a set) dict \<Rightarrow> bool" where
  "nonempty_values d \<longleftrightarrow> list_all (\<lambda>(k, s). s \<noteq> {}) d"

definition nonempty_lists :: "('k, 'a list) dict \<Rightarrow> bool" where
  "nonempty_lists d \<longleftrightarrow> list_all (\<lambda>(k, v). v \<noteq> []) d"

text \<open>The two nested loops of \<^const>\<open>invert_mapping\<close>, started on any dict.\<close>

definition invert_from :: "('p, 'r list) dict \<Rightarrow> ('r, 'p set) dict \<Rightarrow> ('r, 'p set) dict" where
  "invert_from packages d =
     fold (\<lambda>(package, repos) result.
             fold (\<lambda>repo result. setdefault_add result repo package) repos result)
          packages d"

text \<open>The packages whose sequence holds the repository \<open>r\<close>.\<close>

definition packages_of :: "('p, 'r list) dict \<Rightarrow> 'r \<Rightarrow> 'p set" where
  "packages_of M r = {p. \<exists>repos. (p, repos) \<in> set M \<and> r \<in> set repos}"

text \<open>
  The field of a CSV row in the column called \<open>name\<close>; when several columns have
  that name the last one counts, as in \<^verbatim>\<open>dict(zip(fieldnames, row))\<close>.
\<close>

definition cell :: "string list \<Rightarrow> string list \<Rightarrow> string \<Rightarrow> string option" where
  "cell header row name = map_of (rev (zip header row)) name"

text \<open>The key and the value one row contributes, when both expressions evaluate.\<close>

definition row_binding :: "(pyval, pyval) dict \<Rightarrow> (pyval \<times> string list) option" where
  "row_binding row =
     (case (map_of row (Str ''package''), map_of row (Str ''all_repos'')) of
        (Some key, Some (Str s)) \<Rightarrow> Some (key, str_split CHR '','' s)
      | _ \<Rightarrow> None)"

text \<open>\<^verbatim>\<open>','.join(pieces)\<close>, the text an \<^verbatim>\<open>all_repos\<close> field is written as.\<close>

fun comma_join :: "string list \<Rightarrow> string" where
  "comma_join [] = []"
| "comma_join [w] = w"
| "comma_join (w # v # ws) = w @ CHR '','' # comma_join (v # ws)"

text \<open>
  Python's \<^verbatim>\<open>==\<close> between the dict \<^const>\<open>invert_mapping\<close> returns on the result of
  \<^const>\<open>parse_package_to_repos_file\<close> and the dict \<^const>\<open>parse_repo_to_package_file\<close>
  returns: the same items (the keys of each are distinct), a package \<open>Str p\<close> of the
  first being the package \<open>p\<close> of the second.
\<close>

definition same_mapping :: "(string, pyval set) dict \<Rightarrow> (string, string set) dict \<Rightarrow> bool" where
  "same_mapping a b \<longleftrightarrow> set a = set (map (\<lambda>(k, s). (k, Str ` s)) b)"

text \<open>
  The round trip on two CSV texts: both functions return, and inverting the mapping
  parsed from the first text gives the mapping parsed from the second.
\<close>

definition round_trip_agrees :: "string \<Rightarrow> string \<Rightarrow> bool" where
  "round_trip_agrees text_a text_b =
     (case (parse_package_to_repos_file (readlines text_a),
            parse_repo_to_package_file (readlines text_b)) of
        (Inr packages, Inr direct) \<Rightarrow> same_mapping (invert_mapping packages) direct
      | _ \<Rightarrow> False)"

section \<open>The generator over a directory of JSON files\<close>

text \<open>
  \<^verbatim>\<open>ParsedJSON\<close>, the type the module declares for a decoded document. A float is its
  IEEE 754 binary64 bit pattern.
\<close>

datatype ParsedJSON =
    JObject "(string \<times> ParsedJSON) list"
  | JArray "ParsedJSON list"
  | JText string
  | JInt int
  | JFloat "64 word"
  | JBool bool
  | JNull

text \<open>
  What the file system answers. \<open>scandir\<close> gives the entry names of a directory in
  enumeration order, or the \<^verbatim>\<open>OSError\<close> it raises; \<open>isfile\<close> is \<^verbatim>\<open>os.path.isfile\<close>;
  \<open>open_r\<close> is \<^verbatim>\<open>open(path, 'r')\<close>: the error it raises, or a handle, which is what
  \<^verbatim>\<open>read()\<close> on it gives (an error or the whole text). \<open>glob_dirs\<close> gives the
  directories \<^verbatim>\<open>glob\<close> expands a directory pattern to; it is asked only when the
  directory path itself holds one of the characters \<^verbatim>\<open>*?[\<close>.
\<close>

type_synonym handle = "error + string"

record file_system =
  scandir :: "string \<Rightarrow> error + string list"
  isfile :: "string \<Rightarrow> bool"
  open_r :: "string \<Rightarrow> error + handle"
  glob_dirs :: "string \<Rightarrow> string list"

subsection \<open>Paths and the pattern\<close>

definition is_slash :: "char \<Rightarrow> bool" where
  "is_slash c \<longleftrightarrow> c = CHR ''/''"

text \<open>\<^verbatim>\<open>os.path.split\<close>: around the last slash; the head loses its trailing slashes
  unless it consists of slashes only.\<close>

definition posix_split :: "string \<Rightarrow> string \<times> string" where
  "posix_split p =
     (let tail = rev (takeWhile (\<lambda>c. \<not> is_slash c) (rev p));
          head = rev (dropWhile (\<lambda>c. \<not> is_slash c) (rev p))
      in if head \<noteq> [] \<and> \<not> list_all is_slash head
         then (rev (dropWhile is_slash (rev head)), tail)
         else (head, tail))"

definition basename :: "string \<Rightarrow> string" where
  "basename p = rev (takeWhile (\<lambda>c. \<not> is_slash c) (rev p))"

text \<open>\<^verbatim>\<open>os.path.join\<close> of a directory and one component.\<close>

definition path_join :: "string \<Rightarrow> string \<Rightarrow> string" where
  "path_join a b =
     (if (case b of [] \<Rightarrow> False | c # _ \<Rightarrow> is_slash c) then b
      else if a = [] \<or> is_slash (last a) then a @ b
      else a @ ''/'' @ b)"

text \<open>
  \<^verbatim>\<open>os.path.splitext\<close>: the extension starts at the last dot of the last component,
  unless only dots come before it there.
\<close>

definition splitext :: "string \<Rightarrow> string \<times> string" where
  "splitext p =
     (let tail = basename p;
          ext = rev (takeWhile (\<lambda>c. c \<noteq> CHR ''.'') (rev tail));
          stem = take (length tail - length ext - 1) tail
      in if CHR ''.'' \<in> set tail \<and> \<not> list_all (\<lambda>c. c = CHR ''.'') stem
         then (take (length p - length ext - 1) p, CHR ''.'' # ext)
         else (p, []))"

definition has_magic :: "string \<Rightarrow> bool" where
  "has_magic s \<longleftrightarrow> list_ex (\<lambda>c. c = CHR ''*'' \<or> c = CHR ''?'' \<or> c = CHR ''['') s"

text \<open>\<^verbatim>\<open>glob._ishidden\<close> looks at the first character; an entry name is never empty.\<close>

definition ishidden :: "string \<Rightarrow> bool" where
  "ishidden name = (case name of [] \<Rightarrow> False | c # _ \<Rightarrow> c = CHR ''.'')"

text \<open>\<^verbatim>\<open>fnmatch\<close> of a name against \<^verbatim>\<open>*.json\<close> on POSIX: the name ends with \<^verbatim>\<open>.json\<close>.\<close>

definition fnmatch_json :: "string \<Rightarrow> bool" where
  "fnmatch_json name \<longleftrightarrow> suffix ''.json'' name"

text \<open>\<^verbatim>\<open>glob._iterdir\<close> swallows the \<^verbatim>\<open>OSError\<close> of a directory it cannot list.\<close>

definition iterdir :: "file_system \<Rightarrow> string \<Rightarrow> string list" where
  "iterdir fs dirname = (case scandir fs dirname of Inl e \<Rightarrow> [] | Inr names \<Rightarrow> names)"

text \<open>\<^verbatim>\<open>glob._glob1\<close> for the pattern \<^verbatim>\<open>*.json\<close>, which is not hidden: hidden names
  are dropped, then the pattern is matched.\<close>

definition glob1 :: "file_system \<Rightarrow> string \<Rightarrow> string list" where
  "glob1 fs dirname = filter fnmatch_json (filter (\<lambda>x. \<not> ishidden x) (iterdir fs dirname))"

definition glob_dirname :: "string \<Rightarrow> string" where
  "glob_dirname details_dir = fst (posix_split (details_dir @ ''/*.json''))"

text \<open>\<^verbatim>\<open>glob.iglob('{}/*.json'.format(details_dir))\<close>: the paths, in the order they are
  yielded.\<close>

definition iglob :: "file_system \<Rightarrow> string \<Rightarrow> string list" where
  "iglob fs details_dir =
     (let dirname = glob_dirname details_dir;
          dirs = (if has_magic dirname then glob_dirs fs dirname else [dirname])
      in concat (map (\<lambda>dirname. map (path_join dirname) (glob1 fs dirname)) dirs))"

subsection \<open>The generator\<close>

text \<open>
  What the generator does to files, in order, and what a call of \<^verbatim>\<open>next\<close> ends with.
\<close>

datatype event = Open string | Read string | Close string | Produce "string \<times> ParsedJSON"

datatype outcome = Yield "string \<times> ParsedJSON" | StopIteration | Raise error

text \<open>
  A generator object is created without running any code of the body
  (\<open>Created\<close>). Once started it is either suspended at the \<^verbatim>\<open>yield\<close>, which stands
  inside the \<^verbatim>\<open>with\<close> block: the file \<open>path\<close> is open and \<open>rest\<close> are the paths
  \<^verbatim>\<open>iglob\<close> has still to give; or it is finished.
\<close>

datatype generator = Created string | Suspended string "string list" | Finished

definition parse_package_details :: "string \<Rightarrow> generator" where
  "parse_package_details details_dir = Created details_dir"

text \<open>
  The \<^verbatim>\<open>for\<close> loop from the paths that are left, up to the next \<^verbatim>\<open>yield\<close>, the
  end, or an exception. An exception raised inside the \<^verbatim>\<open>with\<close> block closes the
  file on its way out. \<open>loads\<close> is the JSON decoder applied to the text read.
\<close>

fun body_loop ::
  "file_system \<Rightarrow> (string \<Rightarrow> error + ParsedJSON) \<Rightarrow> string list \<Rightarrow> event list \<times> outcome \<times> generator"
where
  "body_loop fs loads [] = ([], StopIteration, Finished)"
| "body_loop fs loads (path # rest) =
     (if isfile fs path then
        (case open_r fs path of
           Inl e \<Rightarrow> ([], Raise e, Finished)
         | Inr details_file \<Rightarrow>
             (let filename = basename path;
                  package_name = fst (splitext filename)
              in case details_file of
                   Inl e \<Rightarrow> ([Open path, Read path, Close path], Raise e, Finished)
                 | Inr text \<Rightarrow>
                     (case loads text of
                        Inl e \<Rightarrow> ([Open path, Read path, Close path], Raise e, Finished)
                      | Inr package_details \<Rightarrow>
                          ([Open path, Read path], Yield (package_name, package_details),
                           Suspended path rest))))
      else body_loop fs loads rest)"

text \<open>
  \<^verbatim>\<open>next(g)\<close>: the first call lists the directory and enters the loop; resuming
  after the \<^verbatim>\<open>yield\<close> first leaves the \<^verbatim>\<open>with\<close> block, which closes the file.
\<close>

definition gen_next ::
  "file_system \<Rightarrow> (string \<Rightarrow> error + ParsedJSON) \<Rightarrow> generator \<Rightarrow> event list \<times> outcome \<times> generator"
where
  "gen_next fs loads g =
     (case g of
        Created details_dir \<Rightarrow> body_loop fs loads (iglob fs details_dir)
      | Suspended path rest \<Rightarrow>
          (case body_loop fs loads rest of (ev, out, g') \<Rightarrow> (Close path # ev, out, g'))
      | Finished \<Rightarrow> ([], StopIteration, Finished))"

text \<open>\<^verbatim>\<open>g.close()\<close>, also run when a suspended generator is discarded:
  \<^verbatim>\<open>GeneratorExit\<close> is raised at the \<^verbatim>\<open>yield\<close> and the \<^verbatim>\<open>with\<close> block closes the file.\<close>

definition gen_close :: "generator \<Rightarrow> event list \<times> generator" where
  "gen_close g =
     (case g of
        Suspended path rest \<Rightarrow> ([Close path], Finished)
      | _ \<Rightarrow> ([], Finished))"

text \<open>A consumer that calls \<^verbatim>\<open>next\<close> \<open>n\<close> times: the outcomes it sees.\<close>

fun nexts ::
  "nat \<Rightarrow> file_system \<Rightarrow> (string \<Rightarrow> error + ParsedJSON) \<Rightarrow> generator \<Rightarrow> outcome list"
where
  "nexts 0 fs loads g = []"
| "nexts (Suc n) fs loads g =
     (case gen_next fs loads g of (ev, out, g') \<Rightarrow> out # nexts n fs loads g')"

text \<open>
  A consumer that takes at most \<open>n\<close> pairs and then closes the generator: everything
  that happens, a pair being recorded when it reaches the consumer.
\<close>

fun consume ::
  "nat \<Rightarrow> file_system \<Rightarrow> (string \<Rightarrow> error + ParsedJSON) \<Rightarrow> generator \<Rightarrow> event list"
where
  "consume 0 fs loads g = fst (gen_close g)"
| "consume (Suc n) fs loads g =
     (case gen_next fs loads g of
        (ev, Yield item, g') \<Rightarrow> ev @ Produce item # consume n fs loads g'
      | (ev, StopIteration, g') \<Rightarrow> ev
      | (ev, Raise e, g') \<Rightarrow> ev)"

subsection \<open>Notions used to state the properties of the generator\<close>

text \<open>Opening a file, reading it and decoding the text: the error of the first step
  that fails, or the document.\<close>

definition load_file ::
  "file_system \<Rightarrow> (string \<Rightarrow> error + ParsedJSON) \<Rightarrow> string \<Rightarrow> error + ParsedJSON"
where
  "load_file fs loads path =
     (case open_r fs path of
        Inl e \<Rightarrow> Inl e
      | Inr details_file \<Rightarrow> (case details_file of Inl e \<Rightarrow> Inl e | Inr text \<Rightarrow> loads text))"

definition package_name_of :: "string \<Rightarrow> string" where
  "package_name_of path = fst (splitext (basename path))"

text \<open>The handles of a trace: the files opened, the files read, in order.\<close>

fun opened :: "event list \<Rightarrow> string list" where
  "opened [] = []"
| "opened (Open p # es) = p # opened es"
| "opened (e # es) = opened es"

fun read_calls :: "event list \<Rightarrow> string list" where
  "read_calls [] = []"
| "read_calls (Read p # es) = p # read_calls es"
| "read_calls (e # es) = read_calls es"

text \<open>
  No handle is open at the moment a pair is produced; \<open>h\<close> are the handles open
  before the events.
\<close>

fun closed_at_yields :: "string list \<Rightarrow> event list \<Rightarrow> bool" where
  "closed_at_yields h [] = True"
| "closed_at_yields h (Open p # es) = closed_at_yields (h @ [p]) es"
| "closed_at_yields h (Close p # es) = closed_at_yields (remove1 p h) es"
| "closed_at_yields h (Read p # es) = closed_at_yields h es"
| "closed_at_yields h (Produce x # es) = (h = [] \<and> closed_at_yields h es)"

text \<open>
  The discipline the generator follows; \<open>h\<close> is the handle open before the events,
  if any. A file is opened only when none is open, read and closed only while it is
  the open one, a pair is produced only while its file is still open, and no handle
  is left at the end.
\<close>

fun scoped :: "string option \<Rightarrow> event list \<Rightarrow> bool" where
  "scoped h [] = (h = None)"
| "scoped h (Open p # es) = (h = None \<and> scoped (Some p) es)"
| "scoped h (Read p # es) = (h = Some p \<and> scoped h es)"
| "scoped h (Produce x # es) = (h \<noteq> None \<and> scoped h es)"
| "scoped h (Close p # es) = (h = Some p \<and> scoped None es)"

text \<open>The pairs among the outcomes.\<close>

fun yielded :: "outcome list \<Rightarrow> (string \<times> ParsedJSON) list" where
  "yielded [] = []"
| "yielded (Yield x # os) = x # yielded os"
| "yielded (out # os) = yielded os"

text \<open>
  The entries of the directory whose name ends with \<^verbatim>\<open>.json\<close> and that are regular
  files, and a name without the five characters of that suffix.
\<close>

definition json_entries :: "file_system \<Rightarrow> string \<Rightarrow> string list" where
  "json_entries fs details_dir =
     filter (\<lambda>name. suffix ''.json'' name \<and> isfile fs (path_join (glob_dirname details_dir) name))
       (iterdir fs (glob_dirname details_dir))"

definition strip_json :: "string \<Rightarrow> string" where
  "strip_json name = take (length name - 5) name"

text \<open>
  A small directory for examples: \<^verbatim>\<open>a.json\<close>, \<^verbatim>\<open>b.json\<close> with a text that is not
  JSON, \<^verbatim>\<open>c.json\<close>, the hidden \<^verbatim>\<open>.h.json\<close>, a subdirectory \<^verbatim>\<open>sub.json\<close> and
  \<^verbatim>\<open>notes.txt\<close>; and a decoder that knows the three texts the examples use.
\<close>

definition example_fs :: "string list \<Rightarrow> file_system" where
  "example_fs names =
     \<lparr>scandir = (\<lambda>d. if d = ''det'' then Inr names else Inl (OSError ''ENOENT'')),
      isfile = (\<lambda>p. p \<in> set [''det/a.json'', ''det/b.json'', ''det/c.json'', ''det/.h.json'',
                               ''det/notes.txt'']),
      open_r = (\<lambda>p. if p = ''det/a.json'' then Inr (Inr ''[1,2,3]'')
                     else if p = ''det/b.json'' then Inr (Inr ''{invalid}'')
                     else if p = ''det/c.json'' then Inr (Inr ''null'')
                     else if p = ''det/.h.json'' then Inr (Inr ''null'')
                     else if p = ''det/notes.txt'' then Inr (Inr ''[1,2,3]'')
                     else Inl (OSError ''ENOENT'')),
      glob_dirs = (\<lambda>d. [])\<rparr>"

definition example_loads :: "string \<Rightarrow> error + ParsedJSON" where
  "example_loads text =
     (if text = ''[1,2,3]'' then Inr (JArray [JInt 1, JInt 2, JInt 3])
      else if text = ''null'' then Inr JNull
      else Inl (JSONDecodeError ''Expecting property name enclosed in double quotes''))"

text \<open>
  What a generator has still to do: the paths its loop has not reached, and the file
  it closes first when resumed or closed.
\<close>

definition pending :: "file_system \<Rightarrow> generator \<Rightarrow> string list" where
  "pending fs g =
     (case g of Created details_dir \<Rightarrow> iglob fs details_dir | Suspended path rest \<Rightarrow> rest | Finished \<Rightarrow> [])"

definition closing :: "generator \<Rightarrow> event list" where
  "closing g = (case g of Suspended path rest \<Rightarrow> [Close path] | _ \<Rightarrow> [])"

text \<open>The events of a consumer of at most \<open>n\<close> pairs, from the paths left on.\<close>

fun trace_from ::
  "nat \<Rightarrow> file_system \<Rightarrow> (string \<Rightarrow> error + ParsedJSON) \<Rightarrow> string list \<Rightarrow> event list"
where
  "trace_from 0 fs loads ps = []"
| "trace_from (Suc n) fs loads ps =
     (case body_loop fs loads ps of
        (ev, Yield item, g') \<Rightarrow> ev @ Produce item # closing g' @ trace_from n fs loads (pending fs g')
      | (ev, StopIteration, g') \<Rightarrow> ev
      | (ev, Raise e, g') \<Rightarrow> ev)"

section \<open>Dictionaries of sets and the inverse relation\<close>

lemma str_split_nonempty: "str_split sep s \<noteq> []"
  by (induction s) (auto split: list.splits)

lemma map_of_setdefault_add:
  "map_of (setdefault_add d k x) =
     (map_of d)(k \<mapsto> insert x (case map_of d k of None \<Rightarrow> {} | Some s \<Rightarrow> s))"
  by (simp add: setdefault_add_def AList.map_of_update_with_aux split: option.splits)

lemma distinct_setdefault_add:
  "distinct (map fst (setdefault_add d k x)) = distinct (map fst d)"
  by (simp add: setdefault_add_def)

lemma members_setdefault_add:
  "members (map_of (setdefault_add d k x)) k' =
     (if k' = k then insert x (members (map_of d) k) else members (map_of d) k')"
  by (simp add: members_def map_of_setdefault_add)

lemma dom_setdefault_add:
  "dom (map_of (setdefault_add d k x)) = insert k (dom (map_of d))"
  by (simp add: map_of_setdefault_add)

lemma nonempty_values_setdefault_add:
  "nonempty_values d \<Longrightarrow> nonempty_values (setdefault_add d k x)"
  unfolding nonempty_values_def setdefault_add_def
  by (induction d) auto

lemma inner_members:
  "members (map_of (fold (\<lambda>repo result. setdefault_add result repo p) repos d)) r =
     (if r \<in> set repos then insert p (members (map_of d) r) else members (map_of d) r)"
  by (induction repos arbitrary: d) (auto simp: members_setdefault_add)

lemma inner_dom:
  "dom (map_of (fold (\<lambda>repo result. setdefault_add result repo p) repos d)) =
     set repos \<union> dom (map_of d)"
  by (induction repos arbitrary: d) (auto simp: dom_setdefault_add)

lemma inner_distinct:
  "distinct (map fst (fold (\<lambda>repo result. setdefault_add result repo p) repos d)) =
     distinct (map fst d)"
  by (induction repos arbitrary: d) (auto simp: distinct_setdefault_add)

lemma inner_nonempty:
  "nonempty_values d \<Longrightarrow>
     nonempty_values (fold (\<lambda>repo result. setdefault_add result repo p) repos d)"
  by (induction repos arbitrary: d) (auto simp: nonempty_values_setdefault_add)

lemma packages_of_Nil: "packages_of [] r = {}"
  by (simp add: packages_of_def)

lemma packages_of_Cons:
  "packages_of ((p, repos) # M) r = (if r \<in> set repos then {p} else {}) \<union> packages_of M r"
  unfolding packages_of_def by auto

lemma invert_from_Nil: "invert_from [] d = d"
  by (simp add: invert_from_def)

lemma invert_from_Cons:
  "invert_from ((p, repos) # M) d =
     invert_from M (fold (\<lambda>repo result. setdefault_add result repo p) repos d)"
  by (simp add: invert_from_def)

lemma invert_from_members:
  "members (map_of (invert_from M d)) r = members (map_of d) r \<union> packages_of M r"
proof (induction M arbitrary: d)
  case Nil
  show ?case by (simp add: invert_from_Nil packages_of_Nil)
next
  case (Cons a M)
  obtain p repos where a: "a = (p, repos)" by (cases a)
  show ?case
    unfolding a invert_from_Cons Cons.IH packages_of_Cons inner_members by auto
qed

lemma invert_from_dom:
  "dom (map_of (invert_from M d)) = dom (map_of d) \<union> {r. packages_of M r \<noteq> {}}"
proof (induction M arbitrary: d)
  case Nil
  show ?case by (simp add: invert_from_Nil packages_of_Nil)
next
  case (Cons a M)
  obtain p repos where a: "a = (p, repos)" by (cases a)
  show ?case
    unfolding a invert_from_Cons Cons.IH packages_of_Cons inner_dom by auto
qed

lemma invert_from_distinct:
  "distinct (map fst (invert_from M d)) = distinct (map fst d)"
proof (induction M arbitrary: d)
  case Nil
  show ?case by (simp add: invert_from_Nil)
next
  case (Cons a M)
  obtain p repos where a: "a = (p, repos)" by (cases a)
  show ?case
    unfolding a invert_from_Cons Cons.IH inner_distinct ..
qed

lemma invert_from_nonempty:
  "nonempty_values d \<Longrightarrow> nonempty_values (invert_from M d)"
proof (induction M arbitrary: d)
  case Nil
  then show ?case by (simp add: invert_from_Nil)
next
  case (Cons a M)
  obtain p repos where a: "a = (p, repos)" by (cases a)
  from Cons.prems have "nonempty_values (fold (\<lambda>repo result. setdefault_add result repo p) repos d)"
    by (rule inner_nonempty)
  then show ?case
    unfolding a invert_from_Cons by (rule Cons.IH)
qed

lemma invert_mapping_from: "invert_mapping M = invert_from M []"
  by (simp add: invert_mapping_def invert_from_def)

section \<open>The rows of the dict comprehension\<close>

lemma comprehension_Cons_Some:
  "row_binding row = Some (key, val) \<Longrightarrow>
     comprehension (row # rows) result = comprehension rows (AList.update key val result)"
  by (auto simp: row_binding_def getitem_def split_method_def split: option.splits pyval.splits)

lemma comprehension_Cons_Inr:
  "comprehension (row # rows) result = Inr out \<Longrightarrow>
     \<exists>key val. row_binding row = Some (key, val) \<and>
       comprehension rows (AList.update key val result) = Inr out"
  by (auto simp: row_binding_def getitem_def split_method_def
      split: option.splits pyval.splits sum.splits)

lemma row_binding_nonempty: "row_binding row = Some (key, val) \<Longrightarrow> val \<noteq> []"
  by (auto simp: row_binding_def str_split_nonempty split: option.splits pyval.splits)

lemma nonempty_lists_update:
  "nonempty_lists d \<Longrightarrow> val \<noteq> [] \<Longrightarrow> nonempty_lists (AList.update key val d)"
  unfolding nonempty_lists_def by (induction d) auto

lemma comprehension_nonempty:
  "comprehension rows result = Inr out \<Longrightarrow> nonempty_lists result \<Longrightarrow> nonempty_lists out"
proof (induction rows arbitrary: result)
  case Nil
  then show ?case by simp
next
  case (Cons row rows)
  from comprehension_Cons_Inr [OF Cons.prems(1)] obtain key val where
    b: "row_binding row = Some (key, val)" and
    c: "comprehension rows (AList.update key val result) = Inr out" by blast
  from Cons.prems(2) row_binding_nonempty [OF b]
  have "nonempty_lists (AList.update key val result)" by (rule nonempty_lists_update)
  with c show ?case by (rule Cons.IH)
qed

lemma comprehension_distinct:
  "comprehension rows result = Inr out \<Longrightarrow> distinct (map fst result) \<Longrightarrow> distinct (map fst out)"
proof (induction rows arbitrary: result)
  case Nil
  then show ?case by simp
next
  case (Cons row rows)
  from comprehension_Cons_Inr [OF Cons.prems(1)] obtain key val where
    c: "comprehension rows (AList.update key val result) = Inr out" by blast
  from Cons.prems(2) have "distinct (map fst (AList.update key val result))"
    by (simp add: AList.distinct_update)
  with c show ?case by (rule Cons.IH)
qed

text \<open>The bindings of the rows, the later ones first.\<close>

lemma comprehension_all_bound:
  "list_all (\<lambda>row. row_binding row \<noteq> None) rows \<Longrightarrow>
     \<exists>out. comprehension rows result = Inr out \<and>
       map_of out = map_of (rev (List.map_filter row_binding rows) @ result)"
proof (induction rows arbitrary: result)
  case Nil
  then show ?case by (simp add: List.map_filter_simps)
next
  case (Cons row rows)
  from Cons.prems obtain key val where b: "row_binding row = Some (key, val)"
    and rest: "list_all (\<lambda>row. row_binding row \<noteq> None) rows" by auto
  from Cons.IH [OF rest, of "AList.update key val result"] obtain out where
    c: "comprehension rows (AList.update key val result) = Inr out" and
    m: "map_of out = map_of (rev (List.map_filter row_binding rows) @ AList.update key val result)"
    by blast
  have "map_of out = map_of (rev (List.map_filter row_binding (row # rows)) @ result)"
    unfolding m by (simp add: List.map_filter_simps b AList.update_conv' map_add_def fun_eq_iff)
  with c show ?case unfolding comprehension_Cons_Some [OF b] by blast
qed

section \<open>Columns of a row\<close>

lemma map_of_Str_pairs:
  "map_of (map (\<lambda>(k, v). (Str k, Str v)) xs) (Str n) = map_option Str (map_of xs n)"
  by (induction xs) auto

lemma map_of_fold_update:
  "map_of (fold (\<lambda>(k, v). AList.update (f k) (g v)) xs d) =
     map_of (rev (map (\<lambda>(k, v). (f k, g v)) xs) @ d)"
proof (induction xs arbitrary: d)
  case Nil
  show ?case by simp
next
  case (Cons x xs)
  obtain k v where x: "x = (k, v)" by (cases x)
  show ?case
    by (simp add: x Cons.IH AList.update_conv' map_add_def fun_eq_iff)
qed

lemma dict_row_lookup:
  assumes "length header \<le> length row"
  shows "map_of (dict_row header row) (Str name) = map_option Str (cell header row name)"
proof -
  let ?d = "fold (\<lambda>(k, v). AList.update (Str k) (Str v)) (zip header row) []"
  have d: "map_of ?d (Str name) = map_option Str (cell header row name)"
    by (simp add: map_of_fold_update cell_def map_of_Str_pairs rev_map)
  show ?thesis
  proof (cases "length header < length row")
    case True
    then have "dict_row header row = AList.update NoneVal (StrList (drop (length header) row)) ?d"
      by (simp add: dict_row_def Let_def)
    then show ?thesis by (simp add: AList.update_conv' d)
  next
    case False
    with assms have "dict_row header row = ?d"
      by (simp add: dict_row_def Let_def)
    then show ?thesis by (simp add: d)
  qed
qed

lemma cell_Some:
  assumes "name \<in> set header" "length header \<le> length row"
  shows "\<exists>s. cell header row name = Some s"
proof -
  from assms have "name \<in> fst ` set (rev (zip header row))"
    by (simp add: map_fst_zip_take set_map [symmetric] del: set_map)
  then show ?thesis
    unfolding cell_def by (metis domD dom_map_of_conv_image_fst)
qed

lemma str_split_no_sep: "sep \<notin> set w \<Longrightarrow> str_split sep (w @ sep # rest) = w # str_split sep rest"
  by (induction w) (auto split: list.splits)

lemma str_split_plain: "sep \<notin> set w \<Longrightarrow> str_split sep w = [w]"
  by (induction w) (auto split: list.splits)

lemma str_split_comma_join:
  "pieces \<noteq> [] \<Longrightarrow> \<forall>w \<in> set pieces. CHR '','' \<notin> set w \<Longrightarrow>
     str_split CHR '','' (comma_join pieces) = pieces"
proof (induction pieces rule: comma_join.induct)
  case 1
  then show ?case by simp
next
  case (2 w)
  then show ?case by (simp add: str_split_plain)
next
  case (3 w v ws)
  then show ?case by (simp add: str_split_no_sep)
qed

lemma map_of_rev_last:
  "map_of (rev (map (\<lambda>x. (f x, g x)) xs)) k =
     (if filter (\<lambda>x. f x = k) xs = [] then None
      else Some (g (last (filter (\<lambda>x. f x = k) xs))))"
  by (induction xs rule: rev_induct) auto

lemma row_binding_dict_row:
  assumes "length header \<le> length row"
  shows "row_binding (dict_row header row) =
     (case (cell header row ''package'', cell header row ''all_repos'') of
        (Some p, Some a) \<Rightarrow> Some (Str p, str_split CHR '','' a)
      | _ \<Rightarrow> None)"
  by (simp add: row_binding_def dict_row_lookup [OF assms] split: option.splits)

lemma parse_package_rows:
  assumes reader: "csv_reader input_file = (header # body, None)"
    and cols: "''package'' \<in> set header" "''all_repos'' \<in> set header"
    and full: "\<forall>row \<in> set body. row = [] \<or> length header \<le> length row"
  shows "\<exists>out. parse_package_to_repos_file input_file = Inr out \<and>
      (\<forall>k. map_of out k =
         (let rs = filter (\<lambda>row. row \<noteq> [] \<and> map_option Str (cell header row ''package'') = Some k) body
          in if rs = [] then None
             else map_option (str_split CHR '','') (cell header (last rs) ''all_repos'')))"
proof -
  define rows where "rows = filter (\<lambda>row. row \<noteq> []) body"
  define pk where "pk = (\<lambda>row. Str (the (cell header row ''package'')))"
  define ar where "ar = (\<lambda>row. str_split CHR '','' (the (cell header row ''all_repos'')))"
  have long: "length header \<le> length row" if "row \<in> set rows" for row
    using that full by (auto simp: rows_def)
  have bind: "row_binding (dict_row header row) = Some (pk row, ar row)" if "row \<in> set rows" for row
  proof -
    from cell_Some [OF cols(1) long [OF that]] obtain p where p: "cell header row ''package'' = Some p" ..
    from cell_Some [OF cols(2) long [OF that]] obtain a where a: "cell header row ''all_repos'' = Some a" ..
    show ?thesis by (simp add: row_binding_dict_row [OF long [OF that]] p a pk_def ar_def)
  qed
  have drows: "DictReader (header # body) = map (dict_row header) rows"
    by (simp add: DictReader_def rows_def)
  have all: "list_all (\<lambda>row. row_binding row \<noteq> None) (DictReader (header # body))"
    unfolding drows by (simp add: list_all_iff bind)
  have mf: "List.map_filter row_binding (DictReader (header # body)) = map (\<lambda>row. (pk row, ar row)) rows"
    unfolding drows List.map_filter_def using bind by (induction rows) auto
  from comprehension_all_bound [OF all, of "[]"] obtain out where
    c: "comprehension (DictReader (header # body)) [] = Inr out" and
    m: "map_of out = map_of (rev (map (\<lambda>row. (pk row, ar row)) rows))"
    unfolding mf by auto
  have res: "parse_package_to_repos_file input_file = Inr out"
    by (simp add: parse_package_to_repos_file_def reader c)
  have "map_of out k =
         (let rs = filter (\<lambda>row. row \<noteq> [] \<and> map_option Str (cell header row ''package'') = Some k) body
          in if rs = [] then None
             else map_option (str_split CHR '','') (cell header (last rs) ''all_repos''))" for k
  proof -
    have f: "filter (\<lambda>row. pk row = k) rows =
        filter (\<lambda>row. row \<noteq> [] \<and> map_option Str (cell header row ''package'') = Some k) body"
    proof -
      have "pk row = k \<longleftrightarrow> map_option Str (cell header row ''package'') = Some k"
        if "row \<in> set rows" for row
        using cell_Some [OF cols(1) long [OF that]] by (auto simp: pk_def)
      then have "filter (\<lambda>row. pk row = k) rows =
          filter (\<lambda>row. map_option Str (cell header row ''package'') = Some k) rows"
        by (intro filter_cong) auto
      then show ?thesis by (simp add: rows_def conj_commute)
    qed
    show ?thesis
    proof (cases "filter (\<lambda>row. pk row = k) rows = []")
      case True
      then show ?thesis unfolding m map_of_rev_last f by (simp add: Let_def)
    next
      case False
      then have "last (filter (\<lambda>row. pk row = k) rows) \<in> set rows"
        by (metis filter_is_subset last_in_set subsetD)
      then have "\<exists>a. cell header (last (filter (\<lambda>row. pk row = k) rows)) ''all_repos'' = Some a"
        using cell_Some [OF cols(2) long] by blast
      with False show ?thesis unfolding m map_of_rev_last ar_def f by (auto simp: Let_def)
    qed
  qed
  with res show ?thesis by blast
qed

section \<open>Inverting a mapping\<close>

lemma map_of_invert_mapping:
  "map_of (invert_mapping M) r = (if packages_of M r = {} then None else Some (packages_of M r))"
proof (cases "map_of (invert_mapping M) r")
  case None
  then have "r \<notin> dom (map_of (invert_from M []))"
    by (simp add: invert_mapping_from domIff)
  then have "packages_of M r = {}"
    by (simp add: invert_from_dom)
  with None show ?thesis by simp
next
  case (Some s)
  then have "r \<in> dom (map_of (invert_from M []))"
    by (simp add: invert_mapping_from domIff)
  then have ne: "packages_of M r \<noteq> {}"
    by (simp add: invert_from_dom)
  have "members (map_of (invert_from M [])) r = packages_of M r"
    using invert_from_members [of M "[]" r] by (simp add: members_def)
  with Some have "s = packages_of M r"
    by (simp add: invert_mapping_from members_def)
  with Some ne show ?thesis by simp
qed

lemma packages_of_map_of:
  "distinct (map fst M) \<Longrightarrow>
     packages_of M r = {p. \<exists>repos. map_of M p = Some repos \<and> r \<in> set repos}"
  by (simp add: packages_of_def)

lemma packages_of_cong:
  assumes "distinct (map fst M)" "distinct (map fst M')"
    and "\<forall>p. rel_option (\<lambda>rs rs'. set rs = set rs') (map_of M p) (map_of M' p)"
  shows "packages_of M' r = packages_of M r"
proof -
  have "(\<exists>repos. map_of M' p = Some repos \<and> r \<in> set repos) \<longleftrightarrow>
        (\<exists>repos. map_of M p = Some repos \<and> r \<in> set repos)" for p
  proof -
    from assms(3) have "rel_option (\<lambda>rs rs'. set rs = set rs') (map_of M p) (map_of M' p)" ..
    then show ?thesis by (cases "map_of M p"; cases "map_of M' p") auto
  qed
  then show ?thesis
    by (simp add: packages_of_map_of assms(1,2))
qed

text \<open>
  C4. For a mapping \<open>M\<close> from packages to sequences of repositories (an association
  list with distinct keys), \<open>invert_mapping M\<close> is a mapping that binds each repository
  \<open>r\<close> to exactly the set of the packages \<open>p\<close> with \<open>r\<close> in \<open>M[p]\<close>; a repository in no
  sequence is unbound and no key is bound to the empty set; and a mapping \<open>M'\<close> whose
  sequences have the same elements as those of \<open>M\<close>, in any order and with any
  repetition, has the same inverse.
\<close>

theorem invert_mapping_inverse:
  assumes "distinct (map fst M)"
  shows "distinct (map fst (invert_mapping M)) \<and>
     (\<forall>r. map_of (invert_mapping M) r =
        (if {p. \<exists>repos. map_of M p = Some repos \<and> r \<in> set repos} = {} then None
         else Some {p. \<exists>repos. map_of M p = Some repos \<and> r \<in> set repos})) \<and>
     (\<forall>r. map_of (invert_mapping M) r \<noteq> Some {}) \<and>
     (\<forall>M'. distinct (map fst M') \<and>
        (\<forall>p. rel_option (\<lambda>rs rs'. set rs = set rs') (map_of M p) (map_of M' p)) \<longrightarrow>
        map_of (invert_mapping M') = map_of (invert_mapping M))"
proof (intro conjI allI impI)
  show "distinct (map fst (invert_mapping M))"
    by (simp add: invert_mapping_from invert_from_distinct)
next
  fix r
  show "map_of (invert_mapping M) r =
        (if {p. \<exists>repos. map_of M p = Some repos \<and> r \<in> set repos} = {} then None
         else Some {p. \<exists>repos. map_of M p = Some repos \<and> r \<in> set repos})"
    unfolding map_of_invert_mapping packages_of_map_of [OF assms] ..
next
  fix r
  show "map_of (invert_mapping M) r \<noteq> Some {}"
    by (simp add: map_of_invert_mapping)
next
  fix M' :: "('a \<times> 'b list) list"
  assume a: "distinct (map fst M') \<and>
    (\<forall>p. rel_option (\<lambda>rs rs'. set rs = set rs') (map_of M p) (map_of M' p))"
  then have "packages_of M' r = packages_of M r" for r
    using packages_of_cong [OF assms] by blast
  then show "map_of (invert_mapping M') = map_of (invert_mapping M)"
    by (simp add: fun_eq_iff map_of_invert_mapping)
qed

theorem invert_mapping_inverse_witness:
  "map_of (invert_mapping [(''p1'', [''r1'', ''r2'', ''r1'']), (''p2'', [''r2''])]) ''r3'' = None \<and>
   map_of (invert_mapping [(''p1'', [''r1'', ''r2'', ''r1'']), (''p2'', [''r2''])]) ''r2''
     = Some {''p1'', ''p2''} \<and>
   map_of (invert_mapping [(''p1'', [''r2'', ''r1'']), (''p2'', [''r2'', ''r2''])])
     = map_of (invert_mapping [(''p1'', [''r1'', ''r2'', ''r1'']), (''p2'', [''r2''])])"
proof -
  let ?M = "[(''p1'', [''r1'', ''r2'', ''r1'']), (''p2'', [''r2''])]"
  let ?M' = "[(''p1'', [''r2'', ''r1'']), (''p2'', [''r2'', ''r2''])]"
  have d: "distinct (map fst ?M)" by simp
  note th = invert_mapping_inverse [OF d]
  have "{p. \<exists>repos. map_of ?M p = Some repos \<and> ''r3'' \<in> set repos} = {}"
    by auto
  with th have 1: "map_of (invert_mapping ?M) ''r3'' = None"
    by presburger
  have s: "{p. \<exists>repos. map_of ?M p = Some repos \<and> ''r2'' \<in> set repos} = {''p1'', ''p2''}"
    by auto
  from th have "map_of (invert_mapping ?M) ''r2'' =
      (if {p. \<exists>repos. map_of ?M p = Some repos \<and> ''r2'' \<in> set repos} = {} then None
       else Some {p. \<exists>repos. map_of ?M p = Some repos \<and> ''r2'' \<in> set repos})"
    by blast
  then have 2: "map_of (invert_mapping ?M) ''r2'' = Some {''p1'', ''p2''}"
    unfolding s by simp
  have "distinct (map fst ?M') \<and>
    (\<forall>p. rel_option (\<lambda>rs rs'. set rs = set rs') (map_of ?M p) (map_of ?M' p))"
    by auto
  with th have 3: "map_of (invert_mapping ?M') = map_of (invert_mapping ?M)"
    by blast
  from 1 2 3 show ?thesis by blast
qed

section \<open>The headerless CSV of packages and repositories\<close>

lemma repo_rows_ok:
  "\<forall>row \<in> set rows. 2 \<le> length row \<Longrightarrow>
     repo_rows rows d = Inr (invert_from (map (\<lambda>row. (row ! 0, [row ! 1])) rows) d)"
proof (induction rows arbitrary: d)
  case Nil
  show ?case by (simp add: invert_from_Nil)
next
  case (Cons row rows)
  then have "1 < length row" by simp
  with Cons show ?case by (simp add: invert_from_Cons)
qed

lemma repo_rows_short:
  "\<exists>row \<in> set rows. length row < 2 \<Longrightarrow> repo_rows rows d = Inl IndexError"
proof (induction rows arbitrary: d)
  case Nil
  then show ?case by simp
next
  case (Cons row rows)
  show ?case
  proof (cases "1 < length row")
    case True
    with Cons.prems have "\<exists>row \<in> set rows. length row < 2" by auto
    with True Cons.IH show ?thesis by simp
  next
    case False
    then show ?thesis by simp
  qed
qed

lemma packages_of_rows:
  "packages_of (map (\<lambda>row. (row ! 0, [row ! 1])) rows) r =
     {row ! 0 | row. row \<in> set rows \<and> row ! 1 = r}"
  unfolding packages_of_def by auto

text \<open>
  C8. Let the CSV reader yield \<open>rows\<close> on the input (and then stop, or raise \<open>err\<close>).
  When some row has fewer than two columns, \<open>parse_repo_to_package_file\<close> fails with
  \<open>IndexError\<close>. When every row has at least two columns and the reader raises
  nothing, it returns a mapping that binds exactly the repositories found in column 1,
  each to the set of the column 0 values of the rows that name it.
\<close>

theorem parse_repo_to_package_file_rows:
  assumes "csv_reader input_file = (rows, err)"
  shows "((\<exists>row \<in> set rows. length row < 2) \<longrightarrow>
            parse_repo_to_package_file input_file = Inl IndexError) \<and>
         ((\<forall>row \<in> set rows. 2 \<le> length row) \<and> err = None \<longrightarrow>
            (\<exists>out. parse_repo_to_package_file input_file = Inr out \<and>
               distinct (map fst out) \<and>
               (\<forall>r. map_of out r =
                  (if r \<in> (\<lambda>row. row ! 1) ` set rows
                   then Some {row ! 0 | row. row \<in> set rows \<and> row ! 1 = r}
                   else None))))"
proof (intro conjI impI)
  assume "\<exists>row \<in> set rows. length row < 2"
  then have "repo_rows rows [] = Inl IndexError" by (rule repo_rows_short)
  then show "parse_repo_to_package_file input_file = Inl IndexError"
    by (simp add: parse_repo_to_package_file_def assms)
next
  assume a: "(\<forall>row \<in> set rows. 2 \<le> length row) \<and> err = None"
  let ?M = "map (\<lambda>row. (row ! 0, [row ! 1])) rows"
  from a have r: "repo_rows rows [] = Inr (invert_mapping ?M)"
    by (simp add: repo_rows_ok invert_mapping_from)
  with a have res: "parse_repo_to_package_file input_file = Inr (invert_mapping ?M)"
    by (simp add: parse_repo_to_package_file_def assms)
  have d: "distinct (map fst (invert_mapping ?M))"
    by (simp add: invert_mapping_from invert_from_distinct)
  have m: "map_of (invert_mapping ?M) r =
      (if r \<in> (\<lambda>row. row ! 1) ` set rows
       then Some {row ! 0 | row. row \<in> set rows \<and> row ! 1 = r} else None)" for r
    unfolding map_of_invert_mapping packages_of_rows by auto
  from res d m show "\<exists>out. parse_repo_to_package_file input_file = Inr out \<and>
      distinct (map fst out) \<and>
      (\<forall>r. map_of out r =
         (if r \<in> (\<lambda>row. row ! 1) ` set rows
          then Some {row ! 0 | row. row \<in> set rows \<and> row ! 1 = r} else None))"
    by blast
qed

lemma csv_reader_three_pairs:
  "csv_reader (readlines ''pkgA,repoX\<newline>pkgB,repoX\<newline>pkgA,repoY\<newline>'') =
     ([[''pkgA'', ''repoX''], [''pkgB'', ''repoX''], [''pkgA'', ''repoY'']], None)"
  by code_simp

lemma csv_reader_short_row:
  "csv_reader (readlines ''pkgA,repoX\<newline>pkgB\<newline>'') =
     ([[''pkgA'', ''repoX''], [''pkgB'']], None)"
  by code_simp

theorem parse_repo_to_package_file_rows_witness:
  "parse_repo_to_package_file (readlines ''pkgA,repoX\<newline>pkgB\<newline>'') = Inl IndexError \<and>
   (\<exists>out. parse_repo_to_package_file
             (readlines ''pkgA,repoX\<newline>pkgB,repoX\<newline>pkgA,repoY\<newline>'') = Inr out \<and>
      map_of out ''repoX'' = Some {''pkgA'', ''pkgB''} \<and>
      map_of out ''repoY'' = Some {''pkgA''} \<and>
      map_of out ''repoZ'' = None)"
proof -
  let ?rows = "[[''pkgA'', ''repoX''], [''pkgB'', ''repoX''], [''pkgA'', ''repoY'']]"
  have short: "\<exists>row \<in> set [[''pkgA'', ''repoX''], [''pkgB'']]. length row < 2" by simp
  from parse_repo_to_package_file_rows [OF csv_reader_short_row] short
  have 1: "parse_repo_to_package_file (readlines ''pkgA,repoX\<newline>pkgB\<newline>'') = Inl IndexError"
    by blast
  have long: "(\<forall>row \<in> set ?rows. 2 \<le> length row) \<and> (None :: error option) = None" by simp
  from parse_repo_to_package_file_rows [OF csv_reader_three_pairs] long
  obtain out where
    res: "parse_repo_to_package_file
            (readlines ''pkgA,repoX\<newline>pkgB,repoX\<newline>pkgA,repoY\<newline>'') = Inr out" and
    m: "\<And>r. map_of out r =
          (if r \<in> (\<lambda>row. row ! 1) ` set ?rows
           then Some {row ! 0 | row. row \<in> set ?rows \<and> row ! 1 = r} else None)"
    by blast
  have c: "{row ! 0 | row. row \<in> set xs \<and> row ! 1 = r} =
      set (map (\<lambda>row. row ! 0) (filter (\<lambda>row. row ! 1 = r) xs))" for xs :: "string list list" and r
    by auto
  have x: "map_of out ''repoX'' = Some {''pkgA'', ''pkgB''}"
    unfolding m c by simp
  have y: "map_of out ''repoY'' = Some {''pkgA''}"
    unfolding m c by simp
  have z: "map_of out ''repoZ'' = None"
    unfolding m by simp
  from 1 res x y z show ?thesis by blast
qed

section \<open>The CSV of packages and their repositories\<close>

lemma repo_rows_nonempty:
  "repo_rows rows d = Inr out \<Longrightarrow> nonempty_values d \<Longrightarrow> nonempty_values out"
proof (induction rows arbitrary: d)
  case Nil
  then show ?case by simp
next
  case (Cons row rows)
  from Cons.prems(1) have long: "1 < length row"
    by (simp split: if_splits)
  with Cons.prems(1) have "repo_rows rows (setdefault_add d (row ! 1) (row ! 0)) = Inr out"
    by simp
  moreover from Cons.prems(2) have "nonempty_values (setdefault_add d (row ! 1) (row ! 0))"
    by (rule nonempty_values_setdefault_add)
  ultimately show ?case by (rule Cons.IH)
qed

lemma parse_package_to_repos_file_Inr:
  "parse_package_to_repos_file input_file = Inr out \<Longrightarrow>
     comprehension (DictReader (fst (csv_reader input_file))) [] = Inr out"
  by (auto simp: parse_package_to_repos_file_def split: prod.splits sum.splits option.splits)

lemma parse_repo_to_package_file_Inr:
  "parse_repo_to_package_file input_file = Inr out \<Longrightarrow>
     repo_rows (fst (csv_reader input_file)) [] = Inr out"
  by (auto simp: parse_repo_to_package_file_def split: prod.splits sum.splits option.splits)

text \<open>
  C10. No mapping the module returns holds an empty collection: every list in a
  result of \<open>parse_package_to_repos_file\<close> has an element, and every set in a result
  of \<open>invert_mapping\<close> or of \<open>parse_repo_to_package_file\<close> has a member.
\<close>

theorem returned_collections_nonempty:
  "(\<forall>out. parse_package_to_repos_file input_a = Inr out \<longrightarrow> nonempty_lists out) \<and>
   nonempty_values (invert_mapping M) \<and>
   (\<forall>out. parse_repo_to_package_file input_b = Inr out \<longrightarrow> nonempty_values out)"
proof (intro conjI allI impI)
  fix out
  assume "parse_package_to_repos_file input_a = Inr out"
  then have "comprehension (DictReader (fst (csv_reader input_a))) [] = Inr out"
    by (rule parse_package_to_repos_file_Inr)
  then show "nonempty_lists out"
    by (rule comprehension_nonempty) (simp add: nonempty_lists_def)
next
  show "nonempty_values (invert_mapping M)"
    unfolding invert_mapping_from
    by (rule invert_from_nonempty) (simp add: nonempty_values_def)
next
  fix out
  assume "parse_repo_to_package_file input_b = Inr out"
  then have "repo_rows (fst (csv_reader input_b)) [] = Inr out"
    by (rule parse_repo_to_package_file_Inr)
  then show "nonempty_values out"
    by (rule repo_rows_nonempty) (simp add: nonempty_values_def)
qed

lemma parse_empty_all_repos:
  "parse_package_to_repos_file (readlines ''package,all_repos\<newline>p1,\<newline>'') =
     Inr [(Str ''p1'', [''''])]"
  by code_simp

lemma parse_repo_two_rows:
  "parse_repo_to_package_file (readlines ''p1,r1\<newline>p2,r1\<newline>'') =
     Inr [(''r1'', {''p2'', ''p1''})]"
  by code_simp

theorem returned_collections_nonempty_witness:
  "nonempty_lists [(Str ''p1'', [''''::string])] \<and>
   nonempty_values (invert_mapping [(''p1'', [''r1'', ''r1'']), (''p2'', [])]) \<and>
   nonempty_values [(''r1'', {''p2'', ''p1''})]"
proof -
  note th = returned_collections_nonempty
    [of "readlines ''package,all_repos\<newline>p1,\<newline>''"
        "[(''p1'', [''r1'', ''r1'']), (''p2'', [])]"
        "readlines ''p1,r1\<newline>p2,r1\<newline>''"]
  have 1: "nonempty_lists [(Str ''p1'', [''''::string])]"
    using th [THEN conjunct1] by (simp add: parse_empty_all_repos)
  have 2: "nonempty_values (invert_mapping [(''p1'', [''r1'', ''r1'']), (''p2'', [])])"
    by (rule th [THEN conjunct2, THEN conjunct1])
  have 3: "nonempty_values [(''r1'', {''p2'', ''p1''})]"
    using th [THEN conjunct2, THEN conjunct2] by (simp add: parse_repo_two_rows)
  from 1 2 3 show ?thesis by (intro conjI)
qed

text \<open>
  C9. When the CSV reader yields at most one row on the input and raises nothing (an
  empty input, or a header and no data row), \<open>parse_package_to_repos_file\<close> returns
  the empty mapping, whatever the columns of the header are called.
\<close>

theorem header_only_gives_empty_mapping:
  assumes "csv_reader input_file = (rows, None)" and "length rows \<le> 1"
  shows "parse_package_to_repos_file input_file = Inr []"
proof -
  from assms(2) have "DictReader rows = []"
    by (cases rows) (auto simp: DictReader_def)
  then show ?thesis
    by (simp add: parse_package_to_repos_file_def assms(1))
qed

lemma csv_reader_nothing: "csv_reader [] = ([], None)"
  by (simp add: csv_reader_def parse_reset_def)

text \<open>One line of input never gives more than one row.\<close>

lemma csv_reader_one_line: "length (fst (csv_reader [line])) \<le> 1"
  by (simp add: csv_reader_def parse_reset_def split: sum.splits)

lemma csv_reader_other_header:
  "csv_reader (readlines ''name,url\<newline>'') = ([[''name'', ''url'']], None)"
  by code_simp

theorem header_only_gives_empty_mapping_witness:
  "parse_package_to_repos_file [] = Inr [] \<and>
   parse_package_to_repos_file (readlines ''name,url\<newline>'') = Inr []"
proof
  show "parse_package_to_repos_file [] = Inr []"
    by (rule header_only_gives_empty_mapping [OF csv_reader_nothing]) simp
  show "parse_package_to_repos_file (readlines ''name,url\<newline>'') = Inr []"
    by (rule header_only_gives_empty_mapping [OF csv_reader_other_header]) simp
qed

text \<open>
  The failure for a missing column needs a data row: the same header followed by one
  row raises \<^verbatim>\<open>KeyError\<close>.
\<close>

lemma missing_column_on_data_row:
  "parse_package_to_repos_file (readlines ''name,url\<newline>x,y\<newline>'') = Inl (KeyError ''package'')"
  by code_simp

text \<open>
  C5. Let the CSV reader yield a header with the columns \<open>package\<close> and \<open>all_repos\<close>
  and then the rows \<open>body\<close>, each of them blank or with a field for every column, and
  raise nothing. Then \<open>parse_package_to_repos_file\<close> returns a mapping that binds a
  package exactly when some row names it, to the pieces that splitting the
  \<open>all_repos\<close> field of the last such row on \<open>,\<close> gives; and splitting the comma-joined
  text of any pieces free of commas gives these pieces back, in their order and with
  their repetitions.
\<close>

theorem parse_package_to_repos_file_last_row_wins:
  assumes "csv_reader input_file = (header # body, None)"
    and "''package'' \<in> set header" and "''all_repos'' \<in> set header"
    and "\<forall>row \<in> set body. row = [] \<or> length header \<le> length row"
  shows "(\<exists>out. parse_package_to_repos_file input_file = Inr out \<and>
      (\<forall>k. map_of out k =
         (let rs = filter (\<lambda>row. row \<noteq> [] \<and> map_option Str (cell header row ''package'') = Some k) body
          in if rs = [] then None
             else map_option (str_split CHR '','') (cell header (last rs) ''all_repos'')))) \<and>
    (\<forall>pieces. pieces \<noteq> [] \<and> (\<forall>w \<in> set pieces. CHR '','' \<notin> set w) \<longrightarrow>
       str_split CHR '','' (comma_join pieces) = pieces)"
  using parse_package_rows [OF assms] str_split_comma_join by blast

lemma csv_reader_repeated_package:
  \<open>csv_reader (readlines ''package,all_repos\<newline>p1,"r1,r2,r1"\<newline>p2,r3\<newline>p1,r4\<newline>'') =
     ([[''package'', ''all_repos''], [''p1'', ''r1,r2,r1''], [''p2'', ''r3''], [''p1'', ''r4'']], None)\<close>
  by code_simp

theorem parse_package_to_repos_file_last_row_wins_witness:
  \<open>\<exists>out. parse_package_to_repos_file
           (readlines ''package,all_repos\<newline>p1,"r1,r2,r1"\<newline>p2,r3\<newline>p1,r4\<newline>'') = Inr out \<and>
      map_of out (Str ''p1'') = Some [''r4''] \<and>
      map_of out (Str ''p2'') = Some [''r3''] \<and>
      map_of out (Str ''p3'') = None \<and>
      str_split CHR '','' (comma_join [''r1'', ''r2'', ''r1'']) = [''r1'', ''r2'', ''r1'']\<close>
proof -
  let ?header = "[''package'', ''all_repos'']"
  let ?body = "[[''p1'', ''r1,r2,r1''], [''p2'', ''r3''], [''p1'', ''r4'']]"
  have cols: "''package'' \<in> set ?header" "''all_repos'' \<in> set ?header" by simp_all
  have full: "\<forall>row \<in> set ?body. row = [] \<or> length ?header \<le> length row" by simp
  note th = parse_package_to_repos_file_last_row_wins [OF csv_reader_repeated_package cols full]
  from th obtain out where
    res: "parse_package_to_repos_file
            (readlines (''package,all_repos\<newline>p1,'' @ CHR 0x22 # ''r1,r2,r1'' @ CHR 0x22 # ''\<newline>p2,r3\<newline>p1,r4\<newline>'')) = Inr out" and
    m: "\<And>k. map_of out k =
         (let rs = filter (\<lambda>row. row \<noteq> [] \<and> map_option Str (cell ?header row ''package'') = Some k) ?body
          in if rs = [] then None
             else map_option (str_split CHR '','') (cell ?header (last rs) ''all_repos''))"
    by auto
  have 1: "map_of out (Str ''p1'') = Some [''r4'']"
    unfolding m by (simp add: cell_def)
  have 2: "map_of out (Str ''p2'') = Some [''r3'']"
    unfolding m by (simp add: cell_def)
  have 3: "map_of out (Str ''p3'') = None"
    unfolding m by (simp add: cell_def)
  from th have "str_split CHR '','' (comma_join [''r1'', ''r2'', ''r1'']) = [''r1'', ''r2'', ''r1'']"
    by simp
  with res 1 2 3 show ?thesis by auto
qed

text \<open>
  C7. Under the same conditions on the input, a package whose last row has the empty
  text in the column \<open>all_repos\<close> is bound to the one-element list of the empty text.
\<close>

theorem empty_all_repos_gives_one_empty_text:
  assumes "csv_reader input_file = (header # body, None)"
    and "''package'' \<in> set header" and "''all_repos'' \<in> set header"
    and "\<forall>row \<in> set body. row = [] \<or> length header \<le> length row"
    and "rs = filter (\<lambda>row. row \<noteq> [] \<and> cell header row ''package'' = Some p) body"
    and "rs \<noteq> []" and "cell header (last rs) ''all_repos'' = Some ''''"
  shows "\<exists>out. parse_package_to_repos_file input_file = Inr out \<and>
      map_of out (Str p) = Some ['''']"
proof -
  from parse_package_rows [OF assms(1-4)] obtain out where
    res: "parse_package_to_repos_file input_file = Inr out" and
    m: "\<And>k. map_of out k =
         (let rs = filter (\<lambda>row. row \<noteq> [] \<and> map_option Str (cell header row ''package'') = Some k) body
          in if rs = [] then None
             else map_option (str_split CHR '','') (cell header (last rs) ''all_repos''))"
    by blast
  have f: "filter (\<lambda>row. row \<noteq> [] \<and> map_option Str (cell header row ''package'') = Some (Str p)) body = rs"
    unfolding assms(5) by (intro filter_cong) auto
  have "map_of out (Str p) = Some ['''']"
    unfolding m f using assms(6,7) by simp
  with res show ?thesis by simp
qed

lemma csv_reader_empty_field:
  "csv_reader (readlines ''package,all_repos\<newline>p1,r1\<newline>p1,\<newline>'') =
     ([[''package'', ''all_repos''], [''p1'', ''r1''], [''p1'', '''']], None)"
  by code_simp

theorem empty_all_repos_gives_one_empty_text_witness:
  "\<exists>out. parse_package_to_repos_file
           (readlines ''package,all_repos\<newline>p1,r1\<newline>p1,\<newline>'') = Inr out \<and>
      map_of out (Str ''p1'') = Some ['''']"
proof -
  let ?header = "[''package'', ''all_repos'']"
  let ?body = "[[''p1'', ''r1''], [''p1'', '''']]"
  have cols: "''package'' \<in> set ?header" "''all_repos'' \<in> set ?header" by simp_all
  have full: "\<forall>row \<in> set ?body. row = [] \<or> length ?header \<le> length row" by simp
  have rs: "?body = filter (\<lambda>row. row \<noteq> [] \<and> cell ?header row ''package'' = Some ''p1'') ?body"
    by (simp add: cell_def)
  have ne: "?body \<noteq> []" by simp
  have last: "cell ?header (last ?body) ''all_repos'' = Some ''''"
    by (simp add: cell_def)
  from empty_all_repos_gives_one_empty_text [OF csv_reader_empty_field cols full rs ne last]
  show ?thesis by blast
qed

section \<open>The round trip through both CSV shapes\<close>

text \<open>
  C2, as stated: the text \<^verbatim>\<open>package,all_repos\np1,r1,r2\np2,r2\<close> does not invert to the
  mapping of \<^verbatim>\<open>p1,r1\np1,r2\np2,r2\<close>. The row \<^verbatim>\<open>p1,r1,r2\<close> has three fields, of which
  \<^verbatim>\<open>all_repos\<close> is the second: \<^verbatim>\<open>p1\<close> is given the repository \<^verbatim>\<open>r1\<close> alone.
\<close>

theorem round_trip_unquoted_counterexample:
  "\<not> round_trip_agrees ''package,all_repos\<newline>p1,r1,r2\<newline>p2,r2''
        ''p1,r1\<newline>p1,r2\<newline>p2,r2''"
  by code_simp

lemma unquoted_row_loses_repository:
  "parse_package_to_repos_file (readlines ''package,all_repos\<newline>p1,r1,r2\<newline>p2,r2'') =
     Inr [(Str ''p1'', [''r1'']), (Str ''p2'', [''r2''])]"
  by code_simp

lemma pairs_give_both_packages:
  "parse_repo_to_package_file (readlines ''p1,r1\<newline>p1,r2\<newline>p2,r2'') =
     Inr [(''r1'', {''p1''}), (''r2'', {''p1'', ''p2''})]"
  by code_simp

text \<open>
  C2, amended: with the \<^verbatim>\<open>all_repos\<close> field of the first row quoted, as a CSV field that
  holds commas is written, the two code paths give the same mapping.
\<close>

theorem round_trip_quoted:
  \<open>round_trip_agrees ''package,all_repos\<newline>p1,"r1,r2"\<newline>p2,r2''
     ''p1,r1\<newline>p1,r2\<newline>p2,r2''\<close>
  by code_simp

section \<open>The generator: one step\<close>

lemma body_loop_skip:
  "\<not> isfile fs p \<Longrightarrow> body_loop fs loads (p # rest) = body_loop fs loads rest"
  by simp

lemma body_loop_ok:
  "isfile fs p \<Longrightarrow> load_file fs loads p = Inr j \<Longrightarrow>
     body_loop fs loads (p # rest) =
       ([Open p, Read p], Yield (package_name_of p, j), Suspended p rest)"
  by (auto simp: load_file_def package_name_of_def Let_def split: sum.splits)

lemma body_loop_fail:
  "isfile fs p \<Longrightarrow> load_file fs loads p = Inl e \<Longrightarrow>
     body_loop fs loads (p # rest) = ([], Raise e, Finished) \<or>
     body_loop fs loads (p # rest) = ([Open p, Read p, Close p], Raise e, Finished)"
  by (auto simp: load_file_def Let_def split: sum.splits)

lemma gen_next_pending:
  "gen_next fs loads g =
     (case body_loop fs loads (pending fs g) of (ev, out, g') \<Rightarrow> (closing g @ ev, out, g'))"
  by (cases g) (auto simp: gen_next_def pending_def closing_def split: prod.splits)

lemma nexts_Suc:
  "nexts (Suc n) fs loads g =
     (case body_loop fs loads (pending fs g) of (ev, out, g') \<Rightarrow> out # nexts n fs loads g')"
  by (simp add: gen_next_pending split: prod.splits)

lemma nexts_Finished: "nexts k fs loads Finished = replicate k StopIteration"
  by (induction k) (simp_all add: gen_next_def)

lemma nexts_skip:
  assumes "pending fs g = p # rest" "\<not> isfile fs p"
  shows "nexts (Suc n) fs loads g = nexts (Suc n) fs loads (Suspended p rest)"
  unfolding nexts_Suc assms(1) body_loop_skip [OF assms(2)]
  by (simp add: pending_def)

lemma nexts_ok:
  assumes "pending fs g = p # rest" "isfile fs p" "load_file fs loads p = Inr j"
  shows "nexts (Suc n) fs loads g =
     Yield (package_name_of p, j) # nexts n fs loads (Suspended p rest)"
  unfolding nexts_Suc assms(1) body_loop_ok [OF assms(2,3)] by simp

lemma nexts_fail:
  assumes "pending fs g = p # rest" "isfile fs p" "load_file fs loads p = Inl e"
  shows "nexts (Suc n) fs loads g = Raise e # replicate n StopIteration"
  using body_loop_fail [OF assms(2,3), of rest]
  unfolding nexts_Suc assms(1) by (auto simp: nexts_Finished)

lemma nexts_end:
  assumes "pending fs g = []"
  shows "nexts (Suc n) fs loads g = StopIteration # replicate n StopIteration"
  unfolding nexts_Suc assms by (simp add: nexts_Finished)

section \<open>The generator: what a consumer sees\<close>

lemma nexts_all_good:
  assumes "pending fs g = ps"
    and "\<forall>p \<in> set (filter (isfile fs) ps). load_file fs loads p = Inr (details p)"
  shows "nexts (Suc (length (filter (isfile fs) ps))) fs loads g =
     map (\<lambda>p. Yield (package_name_of p, details p)) (filter (isfile fs) ps) @ [StopIteration]"
  using assms
proof (induction ps arbitrary: g)
  case Nil
  then show ?case by (simp add: nexts_end [of fs g 0 loads, simplified])
next
  case (Cons p ps)
  have pend: "pending fs (Suspended p ps) = ps" by (simp add: pending_def)
  show ?case
  proof (cases "isfile fs p")
    case False
    from Cons.prems(2) False
    have "\<forall>p \<in> set (filter (isfile fs) ps). load_file fs loads p = Inr (details p)" by simp
    then have "nexts (Suc (length (filter (isfile fs) ps))) fs loads (Suspended p ps) =
        map (\<lambda>p. Yield (package_name_of p, details p)) (filter (isfile fs) ps) @ [StopIteration]"
      by (rule Cons.IH [OF pend])
    moreover have "filter (isfile fs) (p # ps) = filter (isfile fs) ps"
      using False by simp
    ultimately show ?thesis
      unfolding nexts_skip [OF Cons.prems(1) False] by simp
  next
    case True
    from Cons.prems(2) True have j: "load_file fs loads p = Inr (details p)"
      and rest: "\<forall>p \<in> set (filter (isfile fs) ps). load_file fs loads p = Inr (details p)"
      by simp_all
    from Cons.IH [OF pend rest] True show ?thesis
      by (simp add: nexts_ok [OF Cons.prems(1) True j] del: nexts.simps)
  qed
qed

lemma nexts_first_failure:
  assumes "pending fs g = ps"
    and "filter (isfile fs) ps = good @ bad # rest"
    and "\<forall>p \<in> set good. load_file fs loads p = Inr (details p)"
    and "load_file fs loads bad = Inl e"
  shows "nexts (length good + 1 + k) fs loads g =
     map (\<lambda>p. Yield (package_name_of p, details p)) good @ Raise e # replicate k StopIteration"
  using assms(1-3)
proof (induction ps arbitrary: g good)
  case Nil
  then show ?case by simp
next
  case (Cons p ps)
  have pend: "pending fs (Suspended p ps) = ps" by (simp add: pending_def)
  show ?case
  proof (cases "isfile fs p")
    case False
    with Cons.prems(2) have f: "filter (isfile fs) ps = good @ bad # rest" by simp
    have n: "length good + 1 + k = Suc (length good + k)" by simp
    show ?thesis
      using Cons.IH [OF pend f Cons.prems(3)]
      unfolding n nexts_skip [OF Cons.prems(1) False] .
  next
    case True
    with Cons.prems(2) have f: "p # filter (isfile fs) ps = good @ bad # rest" by simp
    show ?thesis
    proof (cases good)
      case Nil
      with f have "p = bad" by simp
      with assms(4) have "load_file fs loads p = Inl e" by simp
      from nexts_fail [OF Cons.prems(1) True this, of k] Nil show ?thesis by simp
    next
      case (Cons q good')
      with f have q: "q = p" and f': "filter (isfile fs) ps = good' @ bad # rest" by simp_all
      from Cons.prems(3) Cons q have j: "load_file fs loads p = Inr (details p)"
        and g': "\<forall>p \<in> set good'. load_file fs loads p = Inr (details p)" by simp_all
      have "nexts (length good + 1 + k) fs loads g =
          Yield (package_name_of p, details p) # nexts (length good' + 1 + k) fs loads (Suspended p ps)"
        using nexts_ok [OF Cons.prems(1) True j, of "length good' + 1 + k"] Cons by simp
      with Cons.IH [OF pend f' g'] Cons q show ?thesis by simp
    qed
  qed
qed

section \<open>Paths\<close>

lemma posix_split_pattern:
  "posix_split (d @ ''/*.json'') =
     (if list_all is_slash d then d @ ''/'' else rev (dropWhile is_slash (rev d)), ''*.json'')"
  by (simp add: posix_split_def is_slash_def Let_def)

lemma glob_dirname_chars: "set (glob_dirname d) \<subseteq> insert CHR ''/'' (set d)"
proof -
  have "set (rev (dropWhile is_slash (rev d))) \<subseteq> set d"
    using set_dropWhileD [of _ is_slash "rev d"] by auto
  then show ?thesis
    by (auto simp: glob_dirname_def posix_split_pattern)
qed

lemma glob_dirname_plain: "\<not> has_magic d \<Longrightarrow> \<not> has_magic (glob_dirname d)"
  using glob_dirname_chars [of d] by (auto simp: has_magic_def list_ex_iff)

lemma iglob_plain:
  "\<not> has_magic d \<Longrightarrow> iglob fs d = map (path_join (glob_dirname d)) (glob1 fs (glob_dirname d))"
  by (simp add: iglob_def Let_def glob_dirname_plain)

lemma basename_no_slash: "CHR ''/'' \<notin> set name \<Longrightarrow> basename name = name"
proof -
  assume "CHR ''/'' \<notin> set name"
  then have tw: "takeWhile (\<lambda>c. \<not> is_slash c) (rev name) = rev name"
    by (auto simp: is_slash_def takeWhile_eq_all_conv)
  show ?thesis unfolding basename_def tw by simp
qed

lemma basename_append:
  assumes "CHR ''/'' \<notin> set name" "x = [] \<or> is_slash (last x)"
  shows "basename (x @ name) = name"
proof -
  from assms(1) have all: "\<forall>c \<in> set (rev name). \<not> is_slash c"
    by (auto simp: is_slash_def)
  have tw: "takeWhile (\<lambda>c. \<not> is_slash c) (rev x) = []"
  proof (cases x rule: rev_cases)
    case Nil
    then show ?thesis by simp
  next
    case (snoc ys y)
    with assms(2) show ?thesis by simp
  qed
  have app: "takeWhile (\<lambda>c. \<not> is_slash c) (rev name @ rev x) =
      rev name @ takeWhile (\<lambda>c. \<not> is_slash c) (rev x)"
    by (rule takeWhile_append2) (use all in blast)
  show ?thesis unfolding basename_def rev_append app tw by simp
qed

lemma basename_join:
  assumes "CHR ''/'' \<notin> set name" "name \<noteq> []"
  shows "basename (path_join dir name) = name"
proof -
  from assms obtain c cs where n: "name = c # cs" and c: "\<not> is_slash c"
    by (cases name) (auto simp: is_slash_def)
  show ?thesis
  proof (cases "dir = [] \<or> is_slash (last dir)")
    case True
    then have "path_join dir name = dir @ name"
      using c by (auto simp: path_join_def n)
    with True assms(1) show ?thesis by (simp add: basename_append)
  next
    case False
    then have "path_join dir name = (dir @ ''/'') @ name"
      using c by (auto simp: path_join_def n)
    moreover have "basename ((dir @ ''/'') @ name) = name"
      by (rule basename_append [OF assms(1)]) (simp add: is_slash_def)
    ultimately show ?thesis by simp
  qed
qed

lemma splitext_json:
  assumes "suffix ''.json'' name" "\<not> ishidden name" "CHR ''/'' \<notin> set name"
  shows "fst (splitext name) = strip_json name"
proof -
  from assms(1) obtain s where name: "name = s @ ''.json''"
    by (auto simp: suffix_def)
  from assms(2) name obtain c cs where s: "s = c # cs" and c: "c \<noteq> CHR ''.''"
    by (cases s) (auto simp: ishidden_def)
  have tail: "basename name = name"
    by (rule basename_no_slash [OF assms(3)])
  have ext: "rev (takeWhile (\<lambda>c. c \<noteq> CHR ''.'') (rev name)) = ''json''"
    by (simp add: name)
  have stem: "take (length name - length ''json'' - 1) name = s"
    by (simp add: name)
  have dots: "\<not> list_all (\<lambda>c. c = CHR ''.'') s"
    by (simp add: s c)
  have "CHR ''.'' \<in> set name" by (simp add: name)
  with dots show ?thesis
    by (simp add: splitext_def Let_def tail ext stem strip_json_def) (simp add: name)
qed

lemma package_name_json:
  assumes "suffix ''.json'' name" "\<not> ishidden name" "CHR ''/'' \<notin> set name"
  shows "package_name_of (path_join dir name) = strip_json name"
proof -
  from assms(1) have "name \<noteq> []" by (auto simp: suffix_def)
  with assms(3) have "basename (path_join dir name) = name" by (rule basename_join)
  with splitext_json [OF assms] show ?thesis by (simp add: package_name_of_def)
qed

lemma nexts_take: "take n (nexts (n + m) fs loads g) = nexts n fs loads g"
  by (induction n arbitrary: g) (auto split: prod.splits)

section \<open>The pairs of a directory\<close>

text \<open>
  C3, as stated: every entry whose name ends with \<^verbatim>\<open>.json\<close> and that is a regular file
  is emitted, under its name without the suffix. The directory \<^verbatim>\<open>det\<close> of the example
  holds the regular file \<^verbatim>\<open>.h.json\<close>, which \<^verbatim>\<open>glob\<close> does not match against
  \<^verbatim>\<open>*.json\<close> because its name starts with a dot: three entries qualify, two pairs are
  produced.
\<close>

theorem hidden_json_file_counterexample:
  "map fst (yielded (nexts 4 (example_fs [''a.json'', ''.h.json'', ''sub.json'', ''notes.txt'', ''c.json''])
        example_loads (parse_package_details ''det''))) \<noteq>
   map strip_json (json_entries (example_fs [''a.json'', ''.h.json'', ''sub.json'', ''notes.txt'', ''c.json''])
        ''det'')"
  by code_simp

text \<open>
  C3, amended. Let the directory path hold none of \<^verbatim>\<open>*?[\<close>, let no entry name hold a
  slash, and let \<open>matched\<close> be the entries whose name ends with \<^verbatim>\<open>.json\<close>, does not
  start with a dot, and that are regular files, each of them opening, reading and
  decoding to \<open>details name\<close>. Then the generator yields, in enumeration order, exactly
  the pairs of the name without \<^verbatim>\<open>.json\<close> and the decoded contents, one for each of
  \<open>matched\<close>, and then stops.
\<close>

theorem visible_json_files_are_the_pairs:
  assumes "\<not> has_magic details_dir"
    and "\<forall>name \<in> set (iterdir fs (glob_dirname details_dir)). CHR ''/'' \<notin> set name"
    and "matched =
      filter (\<lambda>name. suffix ''.json'' name \<and> \<not> ishidden name \<and>
                isfile fs (path_join (glob_dirname details_dir) name))
        (iterdir fs (glob_dirname details_dir))"
    and "\<forall>name \<in> set matched.
      load_file fs loads (path_join (glob_dirname details_dir) name) = Inr (details name)"
  shows "nexts (Suc (length matched)) fs loads (parse_package_details details_dir) =
     map (\<lambda>name. Yield (strip_json name, details name)) matched @ [StopIteration]"
proof -
  define dir where "dir = glob_dirname details_dir"
  define names where "names = iterdir fs dir"
  define det where "det = (\<lambda>p. case load_file fs loads p of Inr j \<Rightarrow> j | Inl e \<Rightarrow> JNull)"
  have ps: "iglob fs details_dir = map (path_join dir) (glob1 fs dir)"
    unfolding dir_def by (rule iglob_plain [OF assms(1)])
  have files: "filter (isfile fs) (iglob fs details_dir) = map (path_join dir) matched"
    unfolding ps assms(3) glob1_def dir_def [symmetric] names_def [symmetric]
    by (simp add: filter_map o_def fnmatch_json_def conj_commute conj_left_commute)
  have pend: "pending fs (parse_package_details details_dir) = iglob fs details_dir"
    by (simp add: pending_def parse_package_details_def)
  have good: "\<forall>p \<in> set (filter (isfile fs) (iglob fs details_dir)). load_file fs loads p = Inr (det p)"
    unfolding files using assms(4) by (auto simp: det_def dir_def)
  have m: "name \<in> set matched \<Longrightarrow>
      Yield (package_name_of (path_join dir name), det (path_join dir name)) =
      Yield (strip_json name, details name)" for name
  proof -
    assume a: "name \<in> set matched"
    then have "name \<in> set names" "suffix ''.json'' name" "\<not> ishidden name"
      unfolding assms(3) names_def dir_def by auto
    with assms(2) have "package_name_of (path_join dir name) = strip_json name"
      by (intro package_name_json) (auto simp: names_def dir_def)
    moreover from assms(4) a have "det (path_join dir name) = details name"
      by (simp add: det_def dir_def)
    ultimately show ?thesis by simp
  qed
  have "nexts (Suc (length matched)) fs loads (parse_package_details details_dir) =
      map (\<lambda>p. Yield (package_name_of p, det p)) (map (path_join dir) matched) @ [StopIteration]"
    using nexts_all_good [OF pend good] unfolding files by simp
  also have "map (\<lambda>p. Yield (package_name_of p, det p)) (map (path_join dir) matched) =
      map (\<lambda>name. Yield (strip_json name, details name)) matched"
    using m by simp
  finally show ?thesis .
qed

section \<open>Failures while iterating\<close>

text \<open>
  C6. Let the regular files among the paths be \<open>good\<close>, then \<open>bad\<close>, then \<open>rest\<close>, where
  every file of \<open>good\<close> opens, reads and decodes, and \<open>bad\<close> fails with \<open>e\<close> at one of
  the three steps. Creating the generator and discarding it touches no file and
  raises nothing; the first calls of \<^verbatim>\<open>next\<close> yield the pairs of \<open>good\<close>; the call that
  reaches \<open>bad\<close> raises \<open>e\<close>; every later call finds the generator finished.
\<close>

theorem failure_at_the_step_that_reaches_the_file:
  assumes "filter (isfile fs) (iglob fs details_dir) = good @ bad # rest"
    and "\<forall>p \<in> set good. load_file fs loads p = Inr (details p)"
    and "load_file fs loads bad = Inl e"
  shows "consume 0 fs loads (parse_package_details details_dir) = [] \<and>
     nexts (length good) fs loads (parse_package_details details_dir) =
       map (\<lambda>p. Yield (package_name_of p, details p)) good \<and>
     nexts (length good + 1 + k) fs loads (parse_package_details details_dir) =
       map (\<lambda>p. Yield (package_name_of p, details p)) good @ Raise e # replicate k StopIteration"
proof -
  have pend: "pending fs (parse_package_details details_dir) = iglob fs details_dir"
    by (simp add: pending_def parse_package_details_def)
  have all: "nexts (length good + 1 + k) fs loads (parse_package_details details_dir) =
       map (\<lambda>p. Yield (package_name_of p, details p)) good @ Raise e # replicate k StopIteration"
    for k
    by (rule nexts_first_failure [OF pend assms])
  have "nexts (length good) fs loads (parse_package_details details_dir) =
      take (length good) (nexts (length good + 1) fs loads (parse_package_details details_dir))"
    by (rule nexts_take [symmetric])
  also have "\<dots> = map (\<lambda>p. Yield (package_name_of p, details p)) good"
    using all [of 0] by simp
  finally have first: "nexts (length good) fs loads (parse_package_details details_dir) =
      map (\<lambda>p. Yield (package_name_of p, details p)) good" .
  have "consume 0 fs loads (parse_package_details details_dir) = []"
    by (simp add: parse_package_details_def gen_close_def)
  with first all show ?thesis by blast
qed

lemma example_entries:
  "iterdir (example_fs [''a.json'', ''.h.json'', ''sub.json'', ''notes.txt'', ''c.json''])
     (glob_dirname ''det'') = [''a.json'', ''.h.json'', ''sub.json'', ''notes.txt'', ''c.json'']"
  by code_simp

theorem visible_json_files_are_the_pairs_witness:
  "nexts 3 (example_fs [''a.json'', ''.h.json'', ''sub.json'', ''notes.txt'', ''c.json''])
     example_loads (parse_package_details ''det'') =
   [Yield (''a'', JArray [JInt 1, JInt 2, JInt 3]), Yield (''c'', JNull), StopIteration]"
proof -
  let ?fs = "example_fs [''a.json'', ''.h.json'', ''sub.json'', ''notes.txt'', ''c.json'']"
  let ?details = "\<lambda>name. if name = ''a.json'' then JArray [JInt 1, JInt 2, JInt 3] else JNull"
  have plain: "\<not> has_magic ''det''" by code_simp
  have names: "\<forall>name \<in> set (iterdir ?fs (glob_dirname ''det'')). CHR ''/'' \<notin> set name"
    unfolding example_entries by simp
  have matched: "[''a.json'', ''c.json''] =
      filter (\<lambda>name. suffix ''.json'' name \<and> \<not> ishidden name \<and>
                isfile ?fs (path_join (glob_dirname ''det'') name))
        (iterdir ?fs (glob_dirname ''det''))"
    by code_simp
  have loaded: "\<forall>name \<in> set [''a.json'', ''c.json''].
      load_file ?fs example_loads (path_join (glob_dirname ''det'') name) = Inr (?details name)"
    by code_simp
  from visible_json_files_are_the_pairs [OF plain names matched loaded]
  show ?thesis by (simp add: strip_json_def eval_nat_numeral del: nexts.simps)
qed

lemma example_files:
  "filter (isfile (example_fs [''a.json'', ''b.json'', ''c.json'']))
     (iglob (example_fs [''a.json'', ''b.json'', ''c.json'']) ''det'') =
   [''det/a.json''] @ ''det/b.json'' # [''det/c.json'']"
  by code_simp

lemma example_names:
  "package_name_of ''det/a.json'' = ''a''" "package_name_of ''det/c.json'' = ''c''"
  by code_simp+

theorem failure_at_the_step_that_reaches_the_file_witness:
  "nexts 1 (example_fs [''a.json'', ''b.json'', ''c.json'']) example_loads
     (parse_package_details ''det'') = [Yield (''a'', JArray [JInt 1, JInt 2, JInt 3])] \<and>
   nexts 4 (example_fs [''a.json'', ''b.json'', ''c.json'']) example_loads
     (parse_package_details ''det'') =
   [Yield (''a'', JArray [JInt 1, JInt 2, JInt 3]),
    Raise (JSONDecodeError ''Expecting property name enclosed in double quotes''),
    StopIteration, StopIteration]"
proof -
  let ?fs = "example_fs [''a.json'', ''b.json'', ''c.json'']"
  let ?details = "\<lambda>p :: string. JArray [JInt 1, JInt 2, JInt 3]"
  have good: "\<forall>p \<in> set [''det/a.json'']. load_file ?fs example_loads p = Inr (?details p)"
    by code_simp
  have bad: "load_file ?fs example_loads ''det/b.json'' =
      Inl (JSONDecodeError ''Expecting property name enclosed in double quotes'')"
    by code_simp
  from failure_at_the_step_that_reaches_the_file [OF example_files good bad, of 2]
  show ?thesis by (simp add: example_names eval_nat_numeral del: nexts.simps)
qed

section \<open>File handles\<close>

lemma trace_from_Nil: "trace_from n fs loads [] = []"
  by (cases n) simp_all

lemma trace_from_skip:
  "\<not> isfile fs p \<Longrightarrow> trace_from n fs loads (p # ps) = trace_from n fs loads ps"
  by (cases n) simp_all

lemma trace_from_ok:
  assumes "isfile fs p" "load_file fs loads p = Inr j"
  shows "trace_from (Suc n) fs loads (p # ps) =
     [Open p, Read p, Produce (package_name_of p, j), Close p] @ trace_from n fs loads ps"
  unfolding trace_from.simps body_loop_ok [OF assms]
  by (simp add: closing_def pending_def)

lemma trace_from_fail:
  assumes "isfile fs p" "load_file fs loads p = Inl e"
  shows "trace_from (Suc n) fs loads (p # ps) = [] \<or>
     trace_from (Suc n) fs loads (p # ps) = [Open p, Read p, Close p]"
  using body_loop_fail [OF assms, of ps] unfolding trace_from.simps by auto

lemma consume_trace:
  "consume n fs loads g = closing g @ trace_from n fs loads (pending fs g)"
proof (induction n arbitrary: g)
  case 0
  show ?case by (cases g) (simp_all add: gen_close_def closing_def)
next
  case (Suc n)
  obtain ev out g' where b: "body_loop fs loads (pending fs g) = (ev, out, g')"
    by (cases "body_loop fs loads (pending fs g)")
  show ?case
    by (cases out) (simp_all add: gen_next_pending b Suc.IH)
qed

lemma trace_from_discipline:
  "scoped None (trace_from n fs loads ps) \<and>
   prefix (opened (trace_from n fs loads ps)) (filter (isfile fs) ps) \<and>
   read_calls (trace_from n fs loads ps) = opened (trace_from n fs loads ps) \<and>
   length (opened (trace_from n fs loads ps)) \<le> n"
proof (induction ps arbitrary: n)
  case Nil
  show ?case by (simp add: trace_from_Nil)
next
  case (Cons p ps)
  show ?case
  proof (cases "isfile fs p")
    case False
    with Cons.IH [of n] show ?thesis by (simp add: trace_from_skip)
  next
    case True
    show ?thesis
    proof (cases n)
      case 0
      then show ?thesis by simp
    next
      case (Suc m)
      show ?thesis
      proof (cases "load_file fs loads p")
        case (Inl e)
        from trace_from_fail [OF True Inl, of m ps] show ?thesis
          unfolding Suc using True by auto
      next
        case (Inr j)
        from Cons.IH [of m] show ?thesis
          unfolding Suc trace_from_ok [OF True Inr] using True by simp
      qed
    qed
  qed
qed

lemma trace_from_all_opened:
  "\<forall>p \<in> set (filter (isfile fs) ps). \<not> isl (load_file fs loads p) \<Longrightarrow>
     length (filter (isfile fs) ps) \<le> n \<Longrightarrow>
     opened (trace_from n fs loads ps) = filter (isfile fs) ps"
proof (induction ps arbitrary: n)
  case Nil
  show ?case by (simp add: trace_from_Nil)
next
  case (Cons p ps)
  show ?case
  proof (cases "isfile fs p")
    case False
    with Cons.prems Cons.IH [of n] show ?thesis by (simp add: trace_from_skip)
  next
    case True
    with Cons.prems(2) obtain m where n: "n = Suc m" and m: "length (filter (isfile fs) ps) \<le> m"
      by (cases n) auto
    from Cons.prems(1) True obtain j where j: "load_file fs loads p = Inr j"
      by (cases "load_file fs loads p") auto
    from Cons.prems(1) True have "\<forall>p \<in> set (filter (isfile fs) ps). \<not> isl (load_file fs loads p)"
      by simp
    from Cons.IH [OF this m] show ?thesis
      unfolding n trace_from_ok [OF True j] using True by simp
  qed
qed

text \<open>
  C1, as stated: a file is closed before its pair is produced. In the directory with
  the one file \<^verbatim>\<open>a.json\<close>, the consumer of one pair receives it while the handle
  is open: the \<^verbatim>\<open>yield\<close> stands inside the \<^verbatim>\<open>with\<close> block.
\<close>

theorem handle_open_at_yield_counterexample:
  "\<not> closed_at_yields []
        (consume 1 (example_fs [''a.json'']) example_loads (parse_package_details ''det''))"
  by code_simp

lemma one_pair_trace:
  "consume 1 (example_fs [''a.json'']) example_loads (parse_package_details ''det'') =
     [Open ''det/a.json'', Read ''det/a.json'',
      Produce (''a'', JArray [JInt 1, JInt 2, JInt 3]), Close ''det/a.json'']"
  by code_simp

text \<open>
  C1, amended. Whatever the number \<open>n\<close> of pairs the consumer takes before it closes
  the generator: a file is opened only while no other is open, is read while it is
  open, its pair is produced while it is still open, and it is closed when the
  generator is resumed or closed, so that no handle is left; the files opened are an
  initial part of the regular files among the paths, at most \<open>n\<close> of them, and each
  is read once; and when every such file opens, reads and decodes and the consumer
  takes them all, each of them is opened.
\<close>

theorem one_handle_open_until_resumed:
  "scoped None (consume n fs loads (parse_package_details details_dir)) \<and>
   prefix (opened (consume n fs loads (parse_package_details details_dir)))
     (filter (isfile fs) (iglob fs details_dir)) \<and>
   read_calls (consume n fs loads (parse_package_details details_dir)) =
     opened (consume n fs loads (parse_package_details details_dir)) \<and>
   length (opened (consume n fs loads (parse_package_details details_dir))) \<le> n \<and>
   ((\<forall>p \<in> set (filter (isfile fs) (iglob fs details_dir)). \<not> isl (load_file fs loads p)) \<and>
    length (filter (isfile fs) (iglob fs details_dir)) \<le> n \<longrightarrow>
    opened (consume n fs loads (parse_package_details details_dir)) =
      filter (isfile fs) (iglob fs details_dir))"
proof -
  have c: "consume n fs loads (parse_package_details details_dir) =
      trace_from n fs loads (iglob fs details_dir)"
    by (simp add: consume_trace parse_package_details_def closing_def pending_def)
  show ?thesis
    unfolding c using trace_from_discipline [of n fs loads "iglob fs details_dir"]
      trace_from_all_opened [of fs "iglob fs details_dir" loads n]
    by blast
qed

lemma example_two_files:
  "filter (isfile (example_fs [''a.json'', ''notes.txt'', ''c.json'']))
     (iglob (example_fs [''a.json'', ''notes.txt'', ''c.json'']) ''det'') =
   [''det/a.json'', ''det/c.json'']"
  by code_simp

theorem one_handle_open_until_resumed_witness:
  "opened (consume 2 (example_fs [''a.json'', ''notes.txt'', ''c.json'']) example_loads
     (parse_package_details ''det'')) = [''det/a.json'', ''det/c.json''] \<and>
   scoped None (consume 2 (example_fs [''a.json'', ''notes.txt'', ''c.json'']) example_loads
     (parse_package_details ''det''))"
proof -
  let ?fs = "example_fs [''a.json'', ''notes.txt'', ''c.json'']"
  have ok: "(\<forall>p \<in> set [''det/a.json'', ''det/c.json'']. \<not> isl (load_file ?fs example_loads p)) \<and>
      length [''det/a.json'', ''det/c.json''] \<le> (2::nat)"
    by code_simp
  from one_handle_open_until_resumed [of 2 ?fs example_loads "''det''"] ok
  show ?thesis unfolding example_two_files by blast
qed

end
